theory Spec2Isabelle
  imports Complex_Main "HOL-Library.Word"
begin

unbundle bit_operations_syntax

section \<open>UTF-8 decoder (src/onyx\_font/text/utf8.cc)\<close>

text \<open>
  Bytes are \<open>unsigned char\<close>, codepoints are \<open>char32_t\<close>. A \<open>std::string_view\<close> is the
  list of its bytes. The bit arithmetic of the source happens after integer promotion; no
  intermediate value exceeds 21 bits, so it is carried out on 32-bit words.
\<close>

type_synonym byte = "8 word"
type_synonym char32 = "32 word"

record utf8_decode_result =
  codepoint :: char32
  bytes_consumed :: int

definition REPLACEMENT_CHAR :: char32 where
  "REPLACEMENT_CHAR = 0xFFFD"

definition is_continuation :: "byte \<Rightarrow> bool" where
  "is_continuation c = (c AND 0xC0 = 0x80)"

definition promote :: "byte \<Rightarrow> char32" where
  "promote b = ucast b"

definition utf8_decode_one :: "byte list \<Rightarrow> utf8_decode_result" where
  "utf8_decode_one str =
     (if str = [] then \<lparr>codepoint = REPLACEMENT_CHAR, bytes_consumed = 0\<rparr>
      else
        let len = length str; first = str ! 0 in
        if first < 0x80 then \<lparr>codepoint = promote first, bytes_consumed = 1\<rparr>
        else if first AND 0xC0 = 0x80 then \<lparr>codepoint = REPLACEMENT_CHAR, bytes_consumed = 1\<rparr>
        else if first \<ge> 0xF8 then \<lparr>codepoint = REPLACEMENT_CHAR, bytes_consumed = 1\<rparr>
        else if first AND 0xE0 = 0xC0 then
          (if len < 2 \<or> \<not> is_continuation (str ! 1)
           then \<lparr>codepoint = REPLACEMENT_CHAR, bytes_consumed = 1\<rparr>
           else
             let cp = push_bit 6 (promote (first AND 0x1F)) OR promote (str ! 1 AND 0x3F) in
             if cp < 0x80 then \<lparr>codepoint = REPLACEMENT_CHAR, bytes_consumed = 2\<rparr>
             else \<lparr>codepoint = cp, bytes_consumed = 2\<rparr>)
        else if first AND 0xF0 = 0xE0 then
          (if len < 3 \<or> \<not> is_continuation (str ! 1) \<or> \<not> is_continuation (str ! 2)
           then \<lparr>codepoint = REPLACEMENT_CHAR, bytes_consumed = 1\<rparr>
           else
             let cp = push_bit 12 (promote (first AND 0x0F))
                      OR push_bit 6 (promote (str ! 1 AND 0x3F))
                      OR promote (str ! 2 AND 0x3F) in
             if cp < 0x800 then \<lparr>codepoint = REPLACEMENT_CHAR, bytes_consumed = 3\<rparr>
             else if cp \<ge> 0xD800 \<and> cp \<le> 0xDFFF
               then \<lparr>codepoint = REPLACEMENT_CHAR, bytes_consumed = 3\<rparr>
             else \<lparr>codepoint = cp, bytes_consumed = 3\<rparr>)
        else if first AND 0xF8 = 0xF0 then
          (if len < 4 \<or> \<not> is_continuation (str ! 1) \<or> \<not> is_continuation (str ! 2)
                \<or> \<not> is_continuation (str ! 3)
           then \<lparr>codepoint = REPLACEMENT_CHAR, bytes_consumed = 1\<rparr>
           else
             let cp = push_bit 18 (promote (first AND 0x07))
                      OR push_bit 12 (promote (str ! 1 AND 0x3F))
                      OR push_bit 6 (promote (str ! 2 AND 0x3F))
                      OR promote (str ! 3 AND 0x3F) in
             if cp < 0x10000 then \<lparr>codepoint = REPLACEMENT_CHAR, bytes_consumed = 4\<rparr>
             else if cp > 0x10FFFF then \<lparr>codepoint = REPLACEMENT_CHAR, bytes_consumed = 4\<rparr>
             else \<lparr>codepoint = cp, bytes_consumed = 4\<rparr>)
        else \<lparr>codepoint = REPLACEMENT_CHAR, bytes_consumed = 1\<rparr>)"

subsection \<open>Well-formedness of UTF-8 sequences, by byte ranges\<close>

text \<open>
  The vocabulary of the decoder's contract, independent of the decoder's bit masks: the length
  a lead byte announces (0 when the byte cannot start a sequence), trail bytes \<open>80..BF\<close>,
  the scalar value a structurally well-formed sequence denotes, and the three semantic defects
  (overlong form, surrogate, beyond U+10FFFF).
\<close>

definition sequence_length :: "byte \<Rightarrow> nat" where
  "sequence_length b =
     (if b \<le> 0x7F then 1
      else if 0xC0 \<le> b \<and> b \<le> 0xDF then 2
      else if 0xE0 \<le> b \<and> b \<le> 0xEF then 3
      else if 0xF0 \<le> b \<and> b \<le> 0xF7 then 4
      else 0)"

definition trail_byte :: "byte \<Rightarrow> bool" where
  "trail_byte b = (0x80 \<le> b \<and> b \<le> 0xBF)"

definition well_formed :: "byte list \<Rightarrow> bool" where
  "well_formed bs =
     (bs \<noteq> [] \<and>
      (let n = sequence_length (hd bs)
       in 0 < n \<and> n \<le> length bs \<and> list_all trail_byte (take (n - 1) (tl bs))))"

definition scalar_value :: "byte list \<Rightarrow> nat" where
  "scalar_value bs =
     (let n = sequence_length (hd bs); t = (\<lambda>i. unat (bs ! i) - 0x80) in
      if n = 2 then (unat (bs ! 0) - 0xC0) * 64 + t 1
      else if n = 3 then (unat (bs ! 0) - 0xE0) * 4096 + t 1 * 64 + t 2
      else if n = 4 then (unat (bs ! 0) - 0xF0) * 262144 + t 1 * 4096 + t 2 * 64 + t 3
      else unat (bs ! 0))"

definition overlong :: "byte list \<Rightarrow> bool" where
  "overlong bs =
     (let n = sequence_length (hd bs); v = scalar_value bs in
      (n = 2 \<and> v < 0x80) \<or> (n = 3 \<and> v < 0x800) \<or> (n = 4 \<and> v < 0x10000))"

definition surrogate :: "byte list \<Rightarrow> bool" where
  "surrogate bs = (0xD800 \<le> scalar_value bs \<and> scalar_value bs \<le> 0xDFFF)"

definition beyond_unicode :: "byte list \<Rightarrow> bool" where
  "beyond_unicode bs = (scalar_value bs > 0x10FFFF)"

definition malformed :: "byte list \<Rightarrow> bool" where
  "malformed bs = (bs \<noteq> [] \<and> (\<not> well_formed bs \<or> overlong bs \<or> surrogate bs \<or> beyond_unicode bs))"


subsection \<open>The codepoints of a string\<close>

text \<open>
  What iterating \<open>utf8_view(str)\<close> yields: \<open>utf8_iterator\<close> decodes one codepoint per
  step and removes the consumed prefix; should a decode ever report 0 bytes on a non-empty
  rest, the iterator yields that codepoint and marks itself at the end.
\<close>

function utf8_view :: "byte list \<Rightarrow> char32 list" where
  "utf8_view str =
     (if str = [] then []
      else
        let r = utf8_decode_one str in
        if bytes_consumed r > 0
        then codepoint r # utf8_view (drop (nat (bytes_consumed r)) str)
        else [codepoint r])"
  by pat_completeness auto
termination
  by (relation "measure length") auto

declare utf8_view.simps [simp del]

section \<open>Raster targets (include/onyx\_font/text/raster\_target.hh)\<close>

text \<open>
  A target wraps a caller-owned buffer through a raw pointer. The buffer is modelled as a
  store from element offsets (relative to the pointer) to values, so that a write lands at
  exactly the offset the source computes, whatever width, height and stride say. Coordinates
  and sizes are C \<open>int\<close>s; they are modelled as unbounded integers (the source computes
  \<open>y * stride + x\<close> and \<open>x + count\<close> without overflow checks, and signed overflow is
  undefined there).
\<close>

type_synonym u32 = "32 word"

subsection \<open>Overwrite grayscale target\<close>

record grayscale_target =
  m_buffer :: "int \<Rightarrow> byte"
  m_width :: int
  m_height :: int
  m_stride :: int

definition make_grayscale_target ::
  "(int \<Rightarrow> byte) \<Rightarrow> int \<Rightarrow> int \<Rightarrow> int \<Rightarrow> grayscale_target" where
  "make_grayscale_target buffer width height stride =
     \<lparr>m_buffer = buffer, m_width = width, m_height = height,
      m_stride = (if stride > 0 then stride else width)\<rparr>"

definition put_pixel :: "grayscale_target \<Rightarrow> int \<Rightarrow> int \<Rightarrow> byte \<Rightarrow> grayscale_target" where
  "put_pixel t x y alpha =
     (if x \<ge> 0 \<and> x < m_width t \<and> y \<ge> 0 \<and> y < m_height t
      then t\<lparr>m_buffer := (m_buffer t)(y * m_stride t + x := alpha)\<rparr>
      else t)"

text \<open>
  \<open>std::memcpy(dst, src, n)\<close> into the store: \<open>src\<close> is the source array from the
  source pointer onwards, \<open>dst\<close> the offset of the first byte written.
\<close>

fun memcpy :: "(int \<Rightarrow> byte) \<Rightarrow> int \<Rightarrow> byte list \<Rightarrow> nat \<Rightarrow> (int \<Rightarrow> byte)" where
  "memcpy buf dst src 0 = buf"
| "memcpy buf dst src (Suc n) = (memcpy buf dst src n)(dst + int n := src ! n)"

definition put_span ::
  "grayscale_target \<Rightarrow> int \<Rightarrow> int \<Rightarrow> byte list \<Rightarrow> int \<Rightarrow> grayscale_target" where
  "put_span t x y alphas count =
     (if y < 0 \<or> y \<ge> m_height t then t
      else
        let x0 = max 0 x; x1 = min (m_width t) (x + count) in
        if x0 < x1
        then t\<lparr>m_buffer := memcpy (m_buffer t) (y * m_stride t + x0)
                                (drop (nat (x0 - x)) alphas) (nat (x1 - x0))\<rparr>
        else t)"

text \<open>
  \<open>emit_span\<close> on this target: the target has \<open>put_span\<close>, so the
  \<open>if constexpr\<close> takes the span branch.
\<close>

definition emit_span ::
  "grayscale_target \<Rightarrow> int \<Rightarrow> int \<Rightarrow> byte list \<Rightarrow> int \<Rightarrow> grayscale_target" where
  "emit_span target x y alphas count = put_span target x y alphas count"

text \<open>
  The per-pixel path the span is compared with:
  \<^verbatim>\<open>for (int i = 0; i < count; ++i) target.put_pixel(x + i, y, alphas[i]);\<close>
\<close>

definition put_pixels ::
  "grayscale_target \<Rightarrow> int \<Rightarrow> int \<Rightarrow> byte list \<Rightarrow> int \<Rightarrow> grayscale_target" where
  "put_pixels t x y alphas count =
     fold (\<lambda>i t'. put_pixel t' (x + int i) y (alphas ! i)) [0..<nat count] t"

text \<open>The state of that loop after its first \<open>n\<close> iterations.\<close>

definition pixel_run ::
  "grayscale_target \<Rightarrow> int \<Rightarrow> int \<Rightarrow> byte list \<Rightarrow> nat \<Rightarrow> grayscale_target" where
  "pixel_run t x y alphas n =
     fold (\<lambda>i t'. put_pixel t' (x + int i) y (alphas ! i)) [0..<n] t"

subsection \<open>RGBA colour-blend target\<close>

record rgba_blend_target =
  rgba_buffer :: "int \<Rightarrow> u32"
  rgba_width :: int
  rgba_height :: int
  m_color_r :: byte
  m_color_g :: byte
  m_color_b :: byte

definition widen :: "byte \<Rightarrow> u32" where
  "widen b = ucast b"

definition make_rgba_blend_target ::
  "(int \<Rightarrow> u32) \<Rightarrow> int \<Rightarrow> int \<Rightarrow> u32 \<Rightarrow> rgba_blend_target" where
  "make_rgba_blend_target buffer width height color =
     \<lparr>rgba_buffer = buffer, rgba_width = width, rgba_height = height,
      m_color_r = ucast (drop_bit 16 color AND 0xFF),
      m_color_g = ucast (drop_bit 8 color AND 0xFF),
      m_color_b = ucast (color AND 0xFF)\<rparr>"

definition rgba_put_pixel ::
  "rgba_blend_target \<Rightarrow> int \<Rightarrow> int \<Rightarrow> byte \<Rightarrow> rgba_blend_target" where
  "rgba_put_pixel t x y alpha =
     (if x \<ge> 0 \<and> x < rgba_width t \<and> y \<ge> 0 \<and> y < rgba_height t \<and> alpha > 0
      then
        let i = y * rgba_width t + x; dst = rgba_buffer t i in
        if alpha = 255
        then t\<lparr>rgba_buffer := (rgba_buffer t)
                 (i := push_bit 24 255 OR (push_bit 16 (widen (m_color_r t)) OR
                       (push_bit 8 (widen (m_color_g t)) OR widen (m_color_b t))))\<rparr>
        else
          let dst_a = (ucast (drop_bit 24 dst AND 0xFF) :: byte);
              dst_r = (ucast (drop_bit 16 dst AND 0xFF) :: byte);
              dst_g = (ucast (drop_bit 8 dst AND 0xFF) :: byte);
              dst_b = (ucast (dst AND 0xFF) :: byte);
              inv_alpha = 255 - widen alpha;
              out_a = widen alpha + (widen dst_a * inv_alpha + 127) div 255;
              out_r = (widen (m_color_r t) * widen alpha + widen dst_r * inv_alpha + 127) div 255;
              out_g = (widen (m_color_g t) * widen alpha + widen dst_g * inv_alpha + 127) div 255;
              out_b = (widen (m_color_b t) * widen alpha + widen dst_b * inv_alpha + 127) div 255
          in t\<lparr>rgba_buffer := (rgba_buffer t)
                 (i := push_bit 24 out_a OR (push_bit 16 out_r OR (push_bit 8 out_g OR out_b)))\<rparr>
      else t)"

text \<open>
  Reading a pixel back: the four 8-bit channels of a packed ARGB value, and the rounded
  Porter-Duff ``over'' of one channel in exact integer arithmetic.
\<close>

definition channel_a :: "u32 \<Rightarrow> nat" where "channel_a p = unat (drop_bit 24 p AND 0xFF)"
definition channel_r :: "u32 \<Rightarrow> nat" where "channel_r p = unat (drop_bit 16 p AND 0xFF)"
definition channel_g :: "u32 \<Rightarrow> nat" where "channel_g p = unat (drop_bit 8 p AND 0xFF)"
definition channel_b :: "u32 \<Rightarrow> nat" where "channel_b p = unat (p AND 0xFF)"

definition over_rounded :: "nat \<Rightarrow> nat \<Rightarrow> nat \<Rightarrow> nat" where
  "over_rounded src alpha dst = (src * alpha + dst * (255 - alpha) + 127) div 255"

section \<open>Single-precision floating point (the C++ type \<open>float\<close>)\<close>

text \<open>
  A \<open>float\<close> is a finite value, given by the real number it denotes, an infinity or a NaN.
  Every arithmetic operation takes the exact result and rounds it once to the nearest value
  with a 24-bit significand, ties to the even significand (IEEE 754 binary32, the default
  rounding mode): the leading bit of a value sits at an exponent from \<open>-126\<close> to \<open>127\<close>, so
  the spacing of the values is \<open>2 powi (e - 23)\<close> and never below \<open>2 powi (- 149)\<close>, and a
  result that rounds to magnitude \<open>2 powi 128\<close> or more is an infinity. The two zeros are
  one value: the code under study never looks at a sign bit, and the only computed divisor
  is an unsigned pixel height.
\<close>

datatype float = Finite real | PInf | NInf | NaN

text \<open>The nearest integer, a tie going to the even one.\<close>

definition round_to_even :: "real \<Rightarrow> int" where
  "round_to_even q =
     (let n = \<lfloor>q\<rfloor>; r = q - of_int n
      in if r < 1 / 2 then n else if 1 / 2 < r then n + 1 else if even n then n else n + 1)"

text \<open>
  The exponent of the leading bit of a magnitude \<open>a\<close>, searched upwards from \<open>e\<close> and
  capped at 127; started at \<open>-126\<close> it gives \<open>-126\<close> for every subnormal magnitude.
\<close>

function exponent_from :: "real \<Rightarrow> int \<Rightarrow> int" where
  "exponent_from a e = (if e < 127 \<and> 2 powi (e + 1) \<le> a then exponent_from a (e + 1) else e)"
  by pat_completeness auto
termination by (relation "measure (\<lambda>(a, e). nat (127 - e))") auto

declare exponent_from.simps [simp del]

definition round_float :: "real \<Rightarrow> float" where
  "round_float x =
     (let e = exponent_from \<bar>x\<bar> (- 126);
          ulp = 2 powi (e - 23);
          y = of_int (round_to_even (x / ulp)) * ulp
      in if 2 powi 128 \<le> y then PInf else if y \<le> - (2 powi 128) then NInf else Finite y)"

text \<open>\<open>static_cast<float>(i)\<close> for an integer \<open>i\<close>.\<close>

definition float_of_int :: "int \<Rightarrow> float" where
  "float_of_int i = round_float (of_int i)"

fun fneg :: "float \<Rightarrow> float" where
  "fneg (Finite x) = Finite (- x)"
| "fneg PInf = NInf"
| "fneg NInf = PInf"
| "fneg NaN = NaN"

fun fadd :: "float \<Rightarrow> float \<Rightarrow> float" where
  "fadd (Finite x) (Finite y) = round_float (x + y)"
| "fadd NaN b = NaN"
| "fadd a NaN = NaN"
| "fadd PInf NInf = NaN"
| "fadd NInf PInf = NaN"
| "fadd PInf b = PInf"
| "fadd a PInf = PInf"
| "fadd NInf b = NInf"
| "fadd a NInf = NInf"

definition fsub :: "float \<Rightarrow> float \<Rightarrow> float" where
  "fsub a b = fadd a (fneg b)"

fun fmul :: "float \<Rightarrow> float \<Rightarrow> float" where
  "fmul (Finite x) (Finite y) = round_float (x * y)"
| "fmul NaN b = NaN"
| "fmul a NaN = NaN"
| "fmul (Finite x) PInf = (if x = 0 then NaN else if 0 < x then PInf else NInf)"
| "fmul (Finite x) NInf = (if x = 0 then NaN else if 0 < x then NInf else PInf)"
| "fmul PInf (Finite y) = (if y = 0 then NaN else if 0 < y then PInf else NInf)"
| "fmul NInf (Finite y) = (if y = 0 then NaN else if 0 < y then NInf else PInf)"
| "fmul PInf PInf = PInf"
| "fmul PInf NInf = NInf"
| "fmul NInf PInf = NInf"
| "fmul NInf NInf = PInf"

text \<open>Division; a zero divisor counts as \<open>+0\<close>.\<close>

fun fdiv :: "float \<Rightarrow> float \<Rightarrow> float" where
  "fdiv (Finite x) (Finite y) =
     (if y = 0 then (if x = 0 then NaN else if 0 < x then PInf else NInf)
      else round_float (x / y))"
| "fdiv NaN b = NaN"
| "fdiv a NaN = NaN"
| "fdiv (Finite x) PInf = Finite 0"
| "fdiv (Finite x) NInf = Finite 0"
| "fdiv PInf (Finite y) = (if 0 \<le> y then PInf else NInf)"
| "fdiv NInf (Finite y) = (if 0 \<le> y then NInf else PInf)"
| "fdiv PInf b = NaN"
| "fdiv NInf b = NaN"

text \<open>The comparisons \<open>a < b\<close> and \<open>a <= b\<close>; \<open>a > b\<close> is \<open>b < a\<close>. A NaN compares false.\<close>

fun flt :: "float \<Rightarrow> float \<Rightarrow> bool" where
  "flt (Finite x) (Finite y) = (x < y)"
| "flt NaN b = False"
| "flt a NaN = False"
| "flt PInf b = False"
| "flt a NInf = False"
| "flt NInf b = True"
| "flt a PInf = True"

fun fle :: "float \<Rightarrow> float \<Rightarrow> bool" where
  "fle (Finite x) (Finite y) = (x \<le> y)"
| "fle NaN b = False"
| "fle a NaN = False"
| "fle NInf b = True"
| "fle a PInf = True"
| "fle PInf b = False"
| "fle a NInf = False"

text \<open>\<open>std::ceil\<close>: exact, since every float of magnitude \<open>2 ^ 23\<close> or more is an integer.\<close>

fun fceil :: "float \<Rightarrow> float" where
  "fceil (Finite x) = Finite (of_int \<lceil>x\<rceil>)"
| "fceil a = a"

text \<open>
  \<open>static_cast<int>(f)\<close> truncates towards zero. For a NaN, an infinity or a value outside
  the range of \<open>int\<close> the conversion is undefined in C++; the value taken here is the one the
  x86-64 conversion instruction delivers, \<open>INT_MIN\<close>.
\<close>

definition float_to_int :: "float \<Rightarrow> int" where
  "float_to_int a =
     (case a of
        Finite x \<Rightarrow>
          (let t = (if 0 \<le> x then \<lfloor>x\<rfloor> else \<lceil>x\<rceil>)
           in if - 2147483648 \<le> t \<and> t \<le> 2147483647 then t else - 2147483648)
      | _ \<Rightarrow> - 2147483648)"

section \<open>Font assets and the font source (src/onyx\_font/text/font\_source.cc)\<close>

text \<open>
  Unsigned 16-bit asset fields are natural numbers, signed ones integers; their conversions
  to \<open>float\<close> are exact.
\<close>

datatype error = out_of_range

record glyph_metrics =
  gm_advance_x :: float
  gm_bearing_x :: float
  gm_bearing_y :: float
  gm_width :: float
  gm_height :: float

text \<open>A default-initialised \<open>glyph_metrics result;\<close>\<close>

definition zero_metrics :: glyph_metrics where
  "zero_metrics =
     \<lparr>gm_advance_x = Finite 0, gm_bearing_x = Finite 0, gm_bearing_y = Finite 0,
      gm_width = Finite 0, gm_height = Finite 0\<rparr>"

record scaled_metrics =
  sm_ascent :: float
  sm_descent :: float
  sm_line_gap :: float
  sm_line_height :: float

text \<open>The \<open>put_pixel\<close> calls a rasterization primitive issues, in order.\<close>

type_synonym pixel_calls = "(int \<times> int \<times> byte) list"

subsection \<open>Bitmap font asset (src/onyx\_font/bitmap\_font.cc)\<close>

record font_metrics =
  fm_ascent :: nat
  fm_pixel_height :: nat
  fm_external_leading :: nat

record glyph_spacing =
  a_space :: "int option"
  b_space :: "nat option"
  c_space :: "int option"

record bitmap_view =
  bv_width :: nat
  bv_height :: nat
  bv_pixel :: "nat \<Rightarrow> nat \<Rightarrow> bool"

text \<open>
  \<open>bf_spacing\<close> and \<open>bf_storage\<close> are the tables \<open>m_spacing\<close> and \<open>m_storage\<close>,
  read at the index \<open>ch - m_first_char\<close>; the packed 1-bit storage behind the views is
  outside the core.
\<close>

record bitmap_font =
  bf_first_char :: byte
  bf_last_char :: byte
  bf_default_char :: byte
  bf_metrics :: font_metrics
  bf_spacing :: "nat \<Rightarrow> glyph_spacing"
  bf_storage :: "nat \<Rightarrow> bitmap_view"

definition get_spacing :: "bitmap_font \<Rightarrow> byte \<Rightarrow> error + glyph_spacing" where
  "get_spacing font ch =
     (if ch < bf_first_char font \<or> ch > bf_last_char font then Inl out_of_range
      else Inr (bf_spacing font (unat ch - unat (bf_first_char font))))"

definition get_glyph :: "bitmap_font \<Rightarrow> byte \<Rightarrow> error + bitmap_view" where
  "get_glyph font ch =
     (if ch < bf_first_char font \<or> ch > bf_last_char font then Inl out_of_range
      else Inr (bf_storage font (unat ch - unat (bf_first_char font))))"

subsection \<open>Stroke font asset (src/onyx\_font/vector\_font.cc)\<close>

datatype stroke_type = MOVE_TO | LINE_TO | END

record stroke_command =
  sc_type :: stroke_type
  sc_dx :: int
  sc_dy :: int

record vector_glyph =
  vg_width :: nat
  vg_strokes :: "stroke_command list"

record vector_font_metrics =
  vm_ascent :: int
  vm_descent :: int
  vm_pixel_height :: nat

text \<open>
  \<open>vf_raster\<close> stands for \<open>rasterize_vector_glyph\<close>, whose line drawing is done by the
  euler library's DDA iterators (not part of the repository): given codepoint, size, pen
  origin and target dimensions it yields the \<open>put_pixel\<close> calls made.
\<close>

record vector_font =
  vf_first_char :: byte
  vf_last_char :: byte
  vf_default_char :: byte
  vf_metrics :: vector_font_metrics
  vf_glyphs :: "nat \<Rightarrow> vector_glyph"
  vf_raster :: "char32 \<Rightarrow> float \<Rightarrow> int \<Rightarrow> int \<Rightarrow> int \<Rightarrow> int \<Rightarrow> pixel_calls"

definition vf_has_glyph :: "vector_font \<Rightarrow> byte \<Rightarrow> bool" where
  "vf_has_glyph font ch = (ch \<ge> vf_first_char font \<and> ch \<le> vf_last_char font)"

definition vf_get_glyph :: "vector_font \<Rightarrow> byte \<Rightarrow> vector_glyph option" where
  "vf_get_glyph font ch =
     (if \<not> vf_has_glyph font ch then None
      else Some (vf_glyphs font (unat ch - unat (vf_first_char font))))"

subsection \<open>Outline font asset (src/onyx\_font/ttf\_font.cc)\<close>

record ttf_glyph_metrics =
  tg_advance_x :: float
  tg_bearing_x :: float
  tg_bearing_y :: float
  tg_width :: float
  tg_height :: float

record ttf_font_metrics =
  tm_ascent :: float
  tm_descent :: float
  tm_line_gap :: float

text \<open>
  The stb\_truetype queries are the asset's own: glyph lookup (\<open>stbtt_FindGlyphIndex\<close>),
  the scaled box and horizontal metrics of a glyph index, the unscaled kerning table, the
  scale for a pixel height, the vertical metrics, and the scan converter behind
  \<open>rasterize_ttf_glyph\<close>.
\<close>

record ttf_font =
  ttf_is_valid :: bool
  ttf_find_glyph_index :: "u32 \<Rightarrow> int"
  ttf_index_metrics :: "int \<Rightarrow> float \<Rightarrow> ttf_glyph_metrics"
  ttf_kern_advance :: "u32 \<Rightarrow> u32 \<Rightarrow> int"
  ttf_scale :: "float \<Rightarrow> float"
  ttf_vmetrics :: "float \<Rightarrow> ttf_font_metrics"
  ttf_raster :: "char32 \<Rightarrow> float \<Rightarrow> int \<Rightarrow> int \<Rightarrow> pixel_calls"

definition ttf_get_glyph_metrics :: "ttf_font \<Rightarrow> u32 \<Rightarrow> float \<Rightarrow> ttf_glyph_metrics option" where
  "ttf_get_glyph_metrics font cp pixel_height =
     (if \<not> ttf_is_valid font then None
      else
        let glyph_index = ttf_find_glyph_index font cp in
        if glyph_index = 0 \<and> cp \<noteq> 0 then None
        else Some (ttf_index_metrics font glyph_index pixel_height))"

definition ttf_has_glyph :: "ttf_font \<Rightarrow> u32 \<Rightarrow> bool" where
  "ttf_has_glyph font cp =
     (if \<not> ttf_is_valid font then False
      else
        let glyph_index = ttf_find_glyph_index font cp in
        glyph_index \<noteq> 0 \<or> cp = 0)"

definition ttf_get_kerning :: "ttf_font \<Rightarrow> u32 \<Rightarrow> u32 \<Rightarrow> float \<Rightarrow> float" where
  "ttf_get_kerning font first second pixel_height =
     (if \<not> ttf_is_valid font then Finite 0
      else
        let scale = ttf_scale font pixel_height;
            kern = ttf_kern_advance font first second
        in fmul (float_of_int kern) scale)"

subsection \<open>The font source: a tagged union of the three\<close>

datatype font_source = bitmap_ref bitmap_font | vector_ref vector_font | ttf_ref ttf_font

fun has_glyph :: "font_source \<Rightarrow> char32 \<Rightarrow> bool" where
  "has_glyph (bitmap_ref font) cp =
     (if cp > 255 then False
      else let ch = (ucast cp :: byte)
           in ch \<ge> bf_first_char font \<and> ch \<le> bf_last_char font)"
| "has_glyph (vector_ref font) cp =
     (if cp > 255 then False else vf_has_glyph font (ucast cp))"
| "has_glyph (ttf_ref font) cp = ttf_has_glyph font cp"

fun default_char :: "font_source \<Rightarrow> char32" where
  "default_char (bitmap_ref font) = ucast (bf_default_char font)"
| "default_char (vector_ref font) = ucast (vf_default_char font)"
| "default_char (ttf_ref font) = 0x3F"

fun get_scaled_metrics :: "font_source \<Rightarrow> float \<Rightarrow> scaled_metrics" where
  "get_scaled_metrics (bitmap_ref font) sz =
     (let metrics = bf_metrics font in
      \<lparr>sm_ascent = float_of_int (int (fm_ascent metrics)),
       sm_descent = float_of_int (int (fm_pixel_height metrics) - int (fm_ascent metrics)),
       sm_line_gap = float_of_int (int (fm_external_leading metrics)),
       sm_line_height =
         float_of_int (int (fm_pixel_height metrics) + int (fm_external_leading metrics))\<rparr>)"
| "get_scaled_metrics (vector_ref font) sz =
     (let metrics = vf_metrics font;
          scale = fdiv sz (float_of_int (int (vm_pixel_height metrics))) in
      \<lparr>sm_ascent = fmul (float_of_int (vm_ascent metrics)) scale,
       sm_descent = fmul (float_of_int (- vm_descent metrics)) scale,
       sm_line_gap = Finite 0,
       sm_line_height = sz\<rparr>)"
| "get_scaled_metrics (ttf_ref font) sz =
     (let ttf_metrics =
            (if \<not> ttf_is_valid font
             then \<lparr>tm_ascent = Finite 0, tm_descent = Finite 0, tm_line_gap = Finite 0\<rparr>
             else ttf_vmetrics font sz)
      in \<lparr>sm_ascent = tm_ascent ttf_metrics,
          sm_descent = fneg (tm_descent ttf_metrics),
          sm_line_gap = tm_line_gap ttf_metrics,
          sm_line_height = fadd (fadd (tm_ascent ttf_metrics) (fneg (tm_descent ttf_metrics)))
                             (tm_line_gap ttf_metrics)\<rparr>)"

text \<open>
  The bounding box of a stroke glyph: the pen replays the \<open>MOVE_TO\<close> and \<open>LINE_TO\<close>
  deltas (\<open>END\<close> is skipped); the state is
  \<open>(min_x, min_y, max_x, max_y, pen_x, pen_y)\<close>, all starting at 0.
\<close>

definition stroke_step ::
  "stroke_command \<Rightarrow> int \<times> int \<times> int \<times> int \<times> int \<times> int \<Rightarrow> int \<times> int \<times> int \<times> int \<times> int \<times> int" where
  "stroke_step cmd st =
     (case st of (min_x, min_y, max_x, max_y, pen_x, pen_y) \<Rightarrow>
        if sc_type cmd \<noteq> END
        then let pen_x' = pen_x + sc_dx cmd; pen_y' = pen_y + sc_dy cmd
             in (min min_x pen_x', min min_y pen_y', max max_x pen_x', max max_y pen_y',
                 pen_x', pen_y')
        else st)"

definition stroke_bounds :: "stroke_command list \<Rightarrow> int \<times> int \<times> int \<times> int \<times> int \<times> int" where
  "stroke_bounds strokes = fold stroke_step strokes (0, 0, 0, 0, 0, 0)"

definition vector_metrics_of :: "vector_font \<Rightarrow> vector_glyph \<Rightarrow> float \<Rightarrow> glyph_metrics" where
  "vector_metrics_of font glyph sz =
     (let metrics = vf_metrics font;
          scale = fdiv sz (float_of_int (int (vm_pixel_height metrics)))
      in case stroke_bounds (vg_strokes glyph) of
           (min_x, min_y, max_x, max_y, pen_x, pen_y) \<Rightarrow>
             \<lparr>gm_advance_x = fmul (float_of_int (int (vg_width glyph))) scale,
              gm_bearing_x = Finite 0,
              gm_bearing_y = fmul (float_of_int (- min_y)) scale,
              gm_width = fmul (float_of_int (max_x - min_x + 1)) scale,
              gm_height = fmul (float_of_int (max_y - min_y + 1)) scale\<rparr>)"

definition bitmap_metrics_of :: "bitmap_font \<Rightarrow> glyph_spacing \<Rightarrow> bitmap_view \<Rightarrow> glyph_metrics" where
  "bitmap_metrics_of font spacing glyph =
     (let advance0 = Finite 0;
          advance1 = (case a_space spacing of
                        Some a \<Rightarrow> fadd advance0 (float_of_int a)
                      | None \<Rightarrow> advance0);
          advance2 = (case b_space spacing of
                        Some b \<Rightarrow> fadd advance1 (float_of_int (int b))
                      | None \<Rightarrow> fadd advance1 (float_of_int (int (bv_width glyph))));
          advance3 = (case c_space spacing of
                        Some c \<Rightarrow> fadd advance2 (float_of_int c)
                      | None \<Rightarrow> advance2)
      in \<lparr>gm_advance_x = advance3,
          gm_bearing_x = (case a_space spacing of Some a \<Rightarrow> float_of_int a | None \<Rightarrow> Finite 0),
          gm_bearing_y = float_of_int (int (fm_ascent (bf_metrics font))),
          gm_width = float_of_int (int (bv_width glyph)),
          gm_height = float_of_int (int (bv_height glyph))\<rparr>)"

text \<open>
  \<open>get_glyph_metrics\<close>. The asset accessors \<open>get_spacing\<close> and \<open>get_glyph\<close> throw
  for a character outside the font's range; an exception would propagate, so the result is a
  sum.
\<close>

fun get_glyph_metrics :: "font_source \<Rightarrow> char32 \<Rightarrow> float \<Rightarrow> error + glyph_metrics" where
  "get_glyph_metrics (bitmap_ref font) cp sz =
     (if cp > 255 then Inr zero_metrics
      else
        let ch0 = (ucast cp :: byte);
            missing = (ch0 < bf_first_char font \<or> ch0 > bf_last_char font);
            ch = (if missing then bf_default_char font else ch0)
        in if missing \<and> (ch < bf_first_char font \<or> ch > bf_last_char font)
           then Inr zero_metrics
           else (case get_spacing font ch of
                   Inl e \<Rightarrow> Inl e
                 | Inr spacing \<Rightarrow>
                     (case get_glyph font ch of
                        Inl e \<Rightarrow> Inl e
                      | Inr glyph \<Rightarrow> Inr (bitmap_metrics_of font spacing glyph))))"
| "get_glyph_metrics (vector_ref font) cp sz =
     (if cp > 255 then Inr zero_metrics
      else
        let ch = (ucast cp :: byte) in
        case vf_get_glyph font ch of
          Some glyph \<Rightarrow> Inr (vector_metrics_of font glyph sz)
        | None \<Rightarrow>
            (case vf_get_glyph font (vf_default_char font) of
               None \<Rightarrow> Inr zero_metrics
             | Some glyph \<Rightarrow> Inr (vector_metrics_of font glyph sz)))"
| "get_glyph_metrics (ttf_ref font) cp sz =
     (case ttf_get_glyph_metrics font cp sz of
        Some ttf_metrics \<Rightarrow>
          Inr \<lparr>gm_advance_x = tg_advance_x ttf_metrics,
               gm_bearing_x = tg_bearing_x ttf_metrics,
               gm_bearing_y = tg_bearing_y ttf_metrics,
               gm_width = tg_width ttf_metrics,
               gm_height = tg_height ttf_metrics\<rparr>
      | None \<Rightarrow> Inr zero_metrics)"

fun get_kerning :: "font_source \<Rightarrow> char32 \<Rightarrow> char32 \<Rightarrow> float \<Rightarrow> float" where
  "get_kerning (ttf_ref font) first second sz = ttf_get_kerning font first second sz"
| "get_kerning _ first second sz = Finite 0"

fun native_size :: "font_source \<Rightarrow> float" where
  "native_size (bitmap_ref font) = float_of_int (int (fm_pixel_height (bf_metrics font)))"
| "native_size _ = Finite 0"

text \<open>
  \<open>rasterize_bitmap_glyph\<close>: the \<open>put_pixel\<close> calls for the set bits of the glyph, row
  by row.
\<close>

definition bitmap_pixels :: "bitmap_view \<Rightarrow> int \<Rightarrow> int \<Rightarrow> pixel_calls" where
  "bitmap_pixels glyph glyph_x glyph_y =
     concat (map (\<lambda>gy. concat (map (\<lambda>gx.
                if bv_pixel glyph gx gy then [(glyph_x + int gx, glyph_y + int gy, 255)] else [])
              [0..<bv_width glyph]))
            [0..<bv_height glyph])"

definition rasterize_bitmap_glyph ::
  "bitmap_font \<Rightarrow> char32 \<Rightarrow> int \<Rightarrow> int \<Rightarrow> error + pixel_calls" where
  "rasterize_bitmap_glyph font cp x y =
     (if cp > 255 then Inr []
      else
        let ch0 = (ucast cp :: byte);
            missing = (ch0 < bf_first_char font \<or> ch0 > bf_last_char font);
            ch = (if missing then bf_default_char font else ch0)
        in if missing \<and> (ch < bf_first_char font \<or> ch > bf_last_char font)
           then Inr []
           else (case get_spacing font ch of
                   Inl e \<Rightarrow> Inl e
                 | Inr spacing \<Rightarrow>
                     (case get_glyph font ch of
                        Inl e \<Rightarrow> Inl e
                      | Inr glyph \<Rightarrow>
                          let glyph_x = (case a_space spacing of Some a \<Rightarrow> x + a | None \<Rightarrow> x);
                              glyph_y = y - int (fm_ascent (bf_metrics font))
                          in Inr (bitmap_pixels glyph glyph_x glyph_y))))"

fun rasterize_pixels ::
  "font_source \<Rightarrow> char32 \<Rightarrow> float \<Rightarrow> int \<Rightarrow> int \<Rightarrow> int \<Rightarrow> int \<Rightarrow> error + pixel_calls" where
  "rasterize_pixels (bitmap_ref font) cp sz x y tw th =
     rasterize_bitmap_glyph font cp x y"
| "rasterize_pixels (vector_ref font) cp sz x y tw th =
     Inr (vf_raster font cp sz x y tw th)"
| "rasterize_pixels (ttf_ref font) cp sz x y tw th =
     Inr (ttf_raster font cp sz x y)"

text \<open>
  \<open>font_source::rasterize_glyph\<close> on a grayscale target: every call the primitive makes goes
  through the target's \<open>put_pixel\<close>.
\<close>

definition rasterize_glyph ::
  "font_source \<Rightarrow> char32 \<Rightarrow> float \<Rightarrow> grayscale_target \<Rightarrow> int \<Rightarrow> int \<Rightarrow> error + grayscale_target" where
  "rasterize_glyph source cp sz target x y =
     (case rasterize_pixels source cp sz x y (m_width target) (m_height target) of
        Inl e \<Rightarrow> Inl e
      | Inr calls \<Rightarrow> Inr (fold (\<lambda>(px, py, alpha) t. put_pixel t px py alpha) calls target))"

text \<open>
  A concrete bitmap font for the examples: printable ASCII in 8 by 8 cells, default
  character \<open>?\<close>, no ABC spacing (so every advance is the cell width 8).
\<close>

definition demo_font :: bitmap_font where
  "demo_font =
     \<lparr>bf_first_char = 32, bf_last_char = 126, bf_default_char = 63,
      bf_metrics = \<lparr>fm_ascent = 7, fm_pixel_height = 8, fm_external_leading = 0\<rparr>,
      bf_spacing = (\<lambda>_. \<lparr>a_space = None, b_space = None, c_space = None\<rparr>),
      bf_storage = (\<lambda>_. \<lparr>bv_width = 8, bv_height = 8, bv_pixel = (\<lambda>gx gy. gx = gy)\<rparr>)\<rparr>"


section \<open>Text rasterizer (src/onyx\_font/text/text\_rasterizer.cc)\<close>

record text_rasterizer =
  m_source :: font_source
  m_size :: float

definition make_text_rasterizer :: "font_source \<Rightarrow> text_rasterizer" where
  "make_text_rasterizer source = \<lparr>m_source = source, m_size = Finite 12\<rparr>"

definition set_size :: "text_rasterizer \<Rightarrow> float \<Rightarrow> text_rasterizer" where
  "set_size r pixels = r\<lparr>m_size := pixels\<rparr>"

definition get_metrics :: "text_rasterizer \<Rightarrow> scaled_metrics" where
  "get_metrics r =
     (case m_source r of
        bitmap_ref font \<Rightarrow>
          (let native = native_size (m_source r) in
           if flt (Finite 0) native then get_scaled_metrics (m_source r) native
           else get_scaled_metrics (m_source r) (m_size r))
      | _ \<Rightarrow> get_scaled_metrics (m_source r) (m_size r))"

definition measure_glyph :: "text_rasterizer \<Rightarrow> char32 \<Rightarrow> error + glyph_metrics" where
  "measure_glyph r cp = get_glyph_metrics (m_source r) cp (m_size r)"

definition rasterizer_kerning :: "text_rasterizer \<Rightarrow> char32 \<Rightarrow> char32 \<Rightarrow> float" where
  "rasterizer_kerning r first second = get_kerning (m_source r) first second (m_size r)"

definition line_height :: "text_rasterizer \<Rightarrow> float" where
  "line_height r = sm_line_height (get_metrics r)"

record text_extents =
  te_width :: float
  te_height :: float
  te_ascent :: float
  te_descent :: float

text \<open>
  \<open>measure_text\<close>: the pen walks the codepoints; the loop state is
  \<open>(pen_x, prev_codepoint)\<close>.
\<close>

fun measure_loop ::
  "text_rasterizer \<Rightarrow> char32 list \<Rightarrow> float \<times> char32 \<Rightarrow> error + float \<times> char32" where
  "measure_loop r [] st = Inr st"
| "measure_loop r (cp # cps) (pen_x, prev_codepoint) =
     (let pen_x1 = (if prev_codepoint \<noteq> 0
                    then fadd pen_x (get_kerning (m_source r) prev_codepoint cp (m_size r))
                    else pen_x)
      in case get_glyph_metrics (m_source r) cp (m_size r) of
           Inl e \<Rightarrow> Inl e
         | Inr glyph \<Rightarrow> measure_loop r cps (fadd pen_x1 (gm_advance_x glyph), cp))"

definition measure_text :: "text_rasterizer \<Rightarrow> byte list \<Rightarrow> error + text_extents" where
  "measure_text r text =
     (if text = []
      then Inr \<lparr>te_width = Finite 0, te_height = Finite 0, te_ascent = Finite 0,
                te_descent = Finite 0\<rparr>
      else
        let metrics = get_metrics r in
        case measure_loop r (utf8_view text) (Finite 0, 0) of
          Inl e \<Rightarrow> Inl e
        | Inr (pen_x, prev_codepoint) \<Rightarrow>
            Inr \<lparr>te_width = pen_x, te_height = sm_line_height metrics,
                 te_ascent = sm_ascent metrics, te_descent = sm_descent metrics\<rparr>)"

section \<open>Atlas surface (include/onyx\_font/text/atlas\_surface.hh)\<close>

text \<open>
  \<open>memory_atlas\<close>: \<open>ma_data\<close> is the owned vector of \<open>width * height\<close> bytes, as a
  store from offsets to bytes, zero-filled on construction. \<open>write_alpha\<close> clips every
  row to the surface, so each offset it writes lies inside the vector.
\<close>

record memory_atlas =
  ma_width :: int
  ma_height :: int
  ma_data :: "int \<Rightarrow> byte"

definition make_memory_atlas :: "int \<Rightarrow> int \<Rightarrow> memory_atlas" where
  "make_memory_atlas width height = \<lparr>ma_width = width, ma_height = height, ma_data = (\<lambda>_. 0)\<rparr>"

text \<open>\<open>memcpy\<close> between two stores: \<open>n\<close> bytes from \<open>src + soff\<close> to \<open>dst + doff\<close>.\<close>

fun copy_bytes ::
  "(int \<Rightarrow> byte) \<Rightarrow> int \<Rightarrow> (int \<Rightarrow> byte) \<Rightarrow> int \<Rightarrow> nat \<Rightarrow> (int \<Rightarrow> byte)" where
  "copy_bytes dst doff src soff 0 = dst"
| "copy_bytes dst doff src soff (Suc n) =
     (copy_bytes dst doff src soff n)(doff + int n := src (soff + int n))"

definition write_row ::
  "int \<Rightarrow> int \<Rightarrow> int \<Rightarrow> (int \<Rightarrow> byte) \<Rightarrow> int \<Rightarrow> nat \<Rightarrow> memory_atlas \<Rightarrow> memory_atlas" where
  "write_row x y w pixels stride row a =
     (let dst_y = y + int row in
      if dst_y < 0 \<or> dst_y \<ge> ma_height a then a
      else
        let src_offset = int row * stride;
            copy_start = (if x < 0 then - x else 0);
            copy_end = (if x + w > ma_width a then ma_width a - x else w)
        in if copy_start < copy_end
           then a\<lparr>ma_data := copy_bytes (ma_data a) (dst_y * ma_width a + (x + copy_start))
                                 pixels (src_offset + copy_start) (nat (copy_end - copy_start))\<rparr>
           else a)"

definition write_alpha ::
  "memory_atlas \<Rightarrow> int \<Rightarrow> int \<Rightarrow> int \<Rightarrow> int \<Rightarrow> (int \<Rightarrow> byte) \<Rightarrow> int \<Rightarrow> memory_atlas" where
  "write_alpha a x y w h pixels stride =
     (if w \<le> 0 \<or> h \<le> 0 then a
      else fold (write_row x y w pixels stride) [0..<nat h] a)"

section \<open>Glyph cache (include/onyx\_font/text/glyph\_cache.hh)\<close>

record glyph_rect =
  rect_x :: int
  rect_y :: int
  rect_w :: int
  rect_h :: int

record cached_glyph =
  atlas_index :: int
  rect :: glyph_rect
  bearing_x :: float
  bearing_y :: float
  advance_x :: float

record glyph_cache_config =
  atlas_size :: int
  padding :: int
  pre_cache_ascii :: bool

definition default_config :: glyph_cache_config where
  "default_config = \<lparr>atlas_size = 512, padding = 1, pre_cache_ascii = True\<rparr>"

text \<open>
  The codepoint map is a partial map. A reference into a \<open>std::unordered_map\<close> stays
  valid while the element exists, and elements are never erased: the identity of a returned
  \<open>cached_glyph\<close> is its key.
\<close>

record glyph_cache =
  m_rasterizer :: text_rasterizer
  m_config :: glyph_cache_config
  m_atlases :: "memory_atlas list"
  m_cache :: "char32 \<rightharpoonup> cached_glyph"
  m_pack_x :: int
  m_pack_y :: int
  m_row_height :: int

definition add_atlas :: "glyph_cache \<Rightarrow> glyph_cache" where
  "add_atlas c =
     c\<lparr>m_atlases := m_atlases c @ [make_memory_atlas (atlas_size (m_config c))
                                                       (atlas_size (m_config c))],
       m_pack_x := padding (m_config c),
       m_pack_y := padding (m_config c),
       m_row_height := 0\<rparr>"

text \<open>\<open>std::clamp(v, lo, hi)\<close>\<close>

definition clamp :: "int \<Rightarrow> int \<Rightarrow> int \<Rightarrow> int" where
  "clamp v lo hi = (if v < lo then lo else if hi < v then hi else v)"

text \<open>
  \<open>m_cache.emplace(codepoint, glyph).first->second\<close>: an existing entry is kept and
  returned.
\<close>

definition emplace :: "glyph_cache \<Rightarrow> char32 \<Rightarrow> cached_glyph \<Rightarrow> cached_glyph \<times> glyph_cache" where
  "emplace c cp glyph =
     (case m_cache c cp of
        Some existing \<Rightarrow> (existing, c)
      | None \<Rightarrow> (glyph, c\<lparr>m_cache := (m_cache c)(cp \<mapsto> glyph)\<rparr>))"

text \<open>Steps 2 and 3 of the packer: wrap to the next row, then open a new page.\<close>

definition wrap_row :: "glyph_cache \<Rightarrow> int \<Rightarrow> glyph_cache" where
  "wrap_row c padded_w =
     (if m_pack_x c + padded_w > atlas_size (m_config c)
      then c\<lparr>m_pack_x := padding (m_config c),
              m_pack_y := m_pack_y c + (m_row_height c + padding (m_config c)),
              m_row_height := 0\<rparr>
      else c)"

definition new_page :: "glyph_cache \<Rightarrow> int \<Rightarrow> glyph_cache" where
  "new_page c padded_h =
     (if m_pack_y c + padded_h > atlas_size (m_config c) then add_atlas c else c)"

definition cache_glyph :: "glyph_cache \<Rightarrow> char32 \<Rightarrow> error + cached_glyph \<times> glyph_cache" where
  "cache_glyph c cp =
     (case measure_glyph (m_rasterizer c) cp of
        Inl e \<Rightarrow> Inl e
      | Inr metrics \<Rightarrow>
          let glyph_w = clamp (float_to_int (fceil (gm_width metrics))) 0 (atlas_size (m_config c));
              glyph_h = clamp (float_to_int (fceil (gm_height metrics))) 0 (atlas_size (m_config c))
          in if glyph_w \<le> 0 \<or> glyph_h \<le> 0
             then Inr (emplace c cp
                    \<lparr>atlas_index = 0,
                     rect = \<lparr>rect_x = 0, rect_y = 0, rect_w = 0, rect_h = 0\<rparr>,
                     bearing_x = gm_bearing_x metrics,
                     bearing_y = gm_bearing_y metrics,
                     advance_x = gm_advance_x metrics\<rparr>)
             else
               let padded_w = glyph_w + padding (m_config c);
                   padded_h = glyph_h + padding (m_config c);
                   c1 = new_page (wrap_row c padded_w) padded_h;
                   index = int (length (m_atlases c1)) - 1;
                   glyph_x = m_pack_x c1;
                   glyph_y = m_pack_y c1;
                   target = make_grayscale_target (\<lambda>_. 0) glyph_w glyph_h 0;
                   baseline_y = float_to_int (fceil (gm_bearing_y metrics))
               in case rasterize_glyph (m_source (m_rasterizer c1)) cp (m_size (m_rasterizer c1))
                         target 0 baseline_y of
                    Inl e \<Rightarrow> Inl e
                  | Inr drawn \<Rightarrow>
                      let c2 = c1\<lparr>m_atlases := (m_atlases c1)
                                  [nat index := write_alpha (m_atlases c1 ! nat index)
                                     glyph_x glyph_y glyph_w glyph_h (m_buffer drawn) glyph_w],
                                  m_pack_x := m_pack_x c1 + padded_w,
                                  m_row_height := max (m_row_height c1) padded_h\<rparr>
                      in Inr (emplace c2 cp
                           \<lparr>atlas_index = index,
                            rect = \<lparr>rect_x = glyph_x, rect_y = glyph_y,
                                    rect_w = glyph_w, rect_h = glyph_h\<rparr>,
                            bearing_x = gm_bearing_x metrics,
                            bearing_y = gm_bearing_y metrics,
                            advance_x = gm_advance_x metrics\<rparr>))"

definition get :: "glyph_cache \<Rightarrow> char32 \<Rightarrow> error + cached_glyph \<times> glyph_cache" where
  "get c cp =
     (case m_cache c cp of
        Some glyph \<Rightarrow> Inr (glyph, c)
      | None \<Rightarrow> cache_glyph c cp)"

definition is_cached :: "glyph_cache \<Rightarrow> char32 \<Rightarrow> bool" where
  "is_cached c cp = (m_cache c cp \<noteq> None)"

text \<open>The body shared by \<open>cache_range\<close> and \<open>cache_string\<close>, over the codepoints visited.\<close>

fun cache_codepoints :: "glyph_cache \<Rightarrow> char32 list \<Rightarrow> error + glyph_cache" where
  "cache_codepoints c [] = Inr c"
| "cache_codepoints c (cp # cps) =
     (if \<not> is_cached c cp
      then (case cache_glyph c cp of
              Inl e \<Rightarrow> Inl e
            | Inr (glyph, c') \<Rightarrow> cache_codepoints c' cps)
      else cache_codepoints c cps)"

text \<open>
  \<open>for (char32_t cp = first; cp <= last; ++cp)\<close>: with \<open>last = 0xFFFFFFFF\<close> the
  condition never fails (the increment wraps to 0) and the loop does not return; that is the
  result \<open>None\<close>.
\<close>

definition cache_range :: "glyph_cache \<Rightarrow> char32 \<Rightarrow> char32 \<Rightarrow> (error + glyph_cache) option" where
  "cache_range c first_cp last_cp =
     (if last_cp = - 1 then None
      else Some (cache_codepoints c (map of_nat [unat first_cp..<Suc (unat last_cp)])))"

definition cache_string :: "glyph_cache \<Rightarrow> byte list \<Rightarrow> error + glyph_cache" where
  "cache_string c utf8_text = cache_codepoints c (utf8_view utf8_text)"

definition make_glyph_cache ::
  "font_source \<Rightarrow> float \<Rightarrow> glyph_cache_config \<Rightarrow> error + glyph_cache" where
  "make_glyph_cache source sz config =
     (let c = add_atlas
                \<lparr>m_rasterizer = set_size (make_text_rasterizer source) sz,
                 m_config = config, m_atlases = [], m_cache = Map.empty,
                 m_pack_x = 0, m_pack_y = 0, m_row_height = 0\<rparr>
      in if pre_cache_ascii config
         then cache_codepoints c (map of_nat [32..<127])
         else Inr c)"

definition atlas_count :: "glyph_cache \<Rightarrow> int" where
  "atlas_count c = int (length (m_atlases c))"

text \<open>
  \<open>atlas(index)\<close> is a \<open>const\<close> member function: it reads the cache and has no
  successor state.
\<close>

definition atlas :: "glyph_cache \<Rightarrow> int \<Rightarrow> error + memory_atlas" where
  "atlas c index =
     (if index < 0 \<or> nat index \<ge> length (m_atlases c) then Inl out_of_range
      else Inr (m_atlases c ! nat index))"

definition cache_measure :: "glyph_cache \<Rightarrow> byte list \<Rightarrow> error + text_extents" where
  "cache_measure c text = measure_text (m_rasterizer c) text"

definition cache_metrics :: "glyph_cache \<Rightarrow> scaled_metrics" where
  "cache_metrics c = get_metrics (m_rasterizer c)"

definition cache_line_height :: "glyph_cache \<Rightarrow> float" where
  "cache_line_height c = line_height (m_rasterizer c)"

subsection \<open>What the packer does on a miss, and the class invariant\<close>

text \<open>The glyph the packer records for a codepoint and the state it packs it into.\<close>

definition packed_state :: "glyph_cache \<Rightarrow> glyph_metrics \<Rightarrow> glyph_cache" where
  "packed_state c metrics =
     (let glyph_w = clamp (float_to_int (fceil (gm_width metrics))) 0 (atlas_size (m_config c));
          glyph_h = clamp (float_to_int (fceil (gm_height metrics))) 0 (atlas_size (m_config c))
      in new_page (wrap_row c (glyph_w + padding (m_config c))) (glyph_h + padding (m_config c)))"

definition packed_glyph :: "glyph_cache \<Rightarrow> glyph_metrics \<Rightarrow> cached_glyph" where
  "packed_glyph c metrics =
     (let glyph_w = clamp (float_to_int (fceil (gm_width metrics))) 0 (atlas_size (m_config c));
          glyph_h = clamp (float_to_int (fceil (gm_height metrics))) 0 (atlas_size (m_config c))
      in if glyph_w \<le> 0 \<or> glyph_h \<le> 0
         then \<lparr>atlas_index = 0,
               rect = \<lparr>rect_x = 0, rect_y = 0, rect_w = 0, rect_h = 0\<rparr>,
               bearing_x = gm_bearing_x metrics, bearing_y = gm_bearing_y metrics,
               advance_x = gm_advance_x metrics\<rparr>
         else \<lparr>atlas_index = int (length (m_atlases (packed_state c metrics))) - 1,
               rect = \<lparr>rect_x = m_pack_x (packed_state c metrics),
                       rect_y = m_pack_y (packed_state c metrics),
                       rect_w = glyph_w, rect_h = glyph_h\<rparr>,
               bearing_x = gm_bearing_x metrics, bearing_y = gm_bearing_y metrics,
               advance_x = gm_advance_x metrics\<rparr>)"

text \<open>
  The invariant of the cache's private state: there is at least one page, every cached
  glyph names an existing page, and carries the advance the rasterizer measures for its
  codepoint.
\<close>

definition cache_wf :: "glyph_cache \<Rightarrow> bool" where
  "cache_wf c =
     (m_atlases c \<noteq> [] \<and>
      (\<forall>cp g. m_cache c cp = Some g \<longrightarrow>
         0 \<le> atlas_index g \<and> atlas_index g < atlas_count c \<and>
         (\<exists>m. measure_glyph (m_rasterizer c) cp = Inr m \<and> advance_x g = gm_advance_x m)))"


text \<open>
  The state right after construction over the example font with \<open>atlas_size = 8\<close>,
  \<open>padding = 1\<close> and no eager ASCII caching.
\<close>

definition demo_config :: glyph_cache_config where
  "demo_config = \<lparr>atlas_size = 8, padding = 1, pre_cache_ascii = False\<rparr>"

definition demo_cache :: glyph_cache where
  "demo_cache =
     \<lparr>m_rasterizer = \<lparr>m_source = bitmap_ref demo_font, m_size = Finite 12\<rparr>,
      m_config = demo_config,
      m_atlases = [make_memory_atlas 8 8],
      m_cache = Map.empty,
      m_pack_x = 1, m_pack_y = 1, m_row_height = 0\<rparr>"

section \<open>Text renderer (include/onyx\_font/text/text\_renderer.hh)\<close>

text \<open>
  The renderer holds a pointer to a glyph cache, which \<open>get\<close> may mutate: the cache is
  passed in and returned. The blit callback is the caller's; its calls are recorded, in
  order, with their four arguments. An exception leaves the function at once: the outcome then
  carries the error, together with the cache and the calls made up to that point.
\<close>

record blit_call =
  blit_atlas :: memory_atlas
  blit_src :: glyph_rect
  blit_dst_x :: float
  blit_dst_y :: float

record draw_state =
  ds_cache :: glyph_cache
  ds_pen_x :: float
  ds_prev_codepoint :: char32
  ds_blits :: "blit_call list"

text \<open>One iteration of the loop of \<open>draw_baseline\<close>, for the codepoint \<open>cp\<close>.\<close>

definition draw_step :: "float \<Rightarrow> draw_state \<Rightarrow> char32 \<Rightarrow> error option \<times> draw_state" where
  "draw_step y st cp =
     (let pen_x = (if ds_prev_codepoint st \<noteq> 0
                   then fadd (ds_pen_x st)
                          (rasterizer_kerning (m_rasterizer (ds_cache st))
                             (ds_prev_codepoint st) cp)
                   else ds_pen_x st)
      in case get (ds_cache st) cp of
           Inl e \<Rightarrow> (Some e, st\<lparr>ds_pen_x := pen_x\<rparr>)
         | Inr (glyph, cache) \<Rightarrow>
             if rect_w (rect glyph) > 0 \<and> rect_h (rect glyph) > 0
             then
               let dst_x = fadd pen_x (bearing_x glyph);
                   dst_y = fsub y (bearing_y glyph)
               in case atlas cache (atlas_index glyph) of
                    Inl e \<Rightarrow> (Some e, st\<lparr>ds_cache := cache, ds_pen_x := pen_x\<rparr>)
                  | Inr page \<Rightarrow>
                      (None,
                       \<lparr>ds_cache = cache, ds_pen_x = fadd pen_x (advance_x glyph),
                        ds_prev_codepoint = cp,
                        ds_blits = ds_blits st @
                          [\<lparr>blit_atlas = page, blit_src = rect glyph,
                            blit_dst_x = dst_x, blit_dst_y = dst_y\<rparr>]\<rparr>)
             else
               (None,
                \<lparr>ds_cache = cache, ds_pen_x = fadd pen_x (advance_x glyph),
                 ds_prev_codepoint = cp, ds_blits = ds_blits st\<rparr>))"

fun draw_loop :: "float \<Rightarrow> char32 list \<Rightarrow> draw_state \<Rightarrow> error option \<times> draw_state" where
  "draw_loop y [] st = (None, st)"
| "draw_loop y (cp # cps) st =
     (case draw_step y st cp of
        (Some e, st') \<Rightarrow> (Some e, st')
      | (None, st') \<Rightarrow> draw_loop y cps st')"

record draw_outcome =
  dr_error :: "error option"
  dr_width :: float
  dr_cache :: glyph_cache
  dr_blits :: "blit_call list"

definition draw_baseline ::
  "glyph_cache \<Rightarrow> byte list \<Rightarrow> float \<Rightarrow> float \<Rightarrow> blit_call list \<Rightarrow> draw_outcome" where
  "draw_baseline cache text x y blits =
     (if text = []
      then \<lparr>dr_error = None, dr_width = Finite 0, dr_cache = cache, dr_blits = blits\<rparr>
      else
        case draw_loop y (utf8_view text)
               \<lparr>ds_cache = cache, ds_pen_x = x, ds_prev_codepoint = 0, ds_blits = blits\<rparr> of
          (err, st) \<Rightarrow>
            \<lparr>dr_error = err, dr_width = fsub (ds_pen_x st) x, dr_cache = ds_cache st,
             dr_blits = ds_blits st\<rparr>)"

definition draw ::
  "glyph_cache \<Rightarrow> byte list \<Rightarrow> float \<Rightarrow> float \<Rightarrow> blit_call list \<Rightarrow> draw_outcome" where
  "draw cache text x y blits =
     (if text = []
      then \<lparr>dr_error = None, dr_width = Finite 0, dr_cache = cache, dr_blits = blits\<rparr>
      else
        let baseline_y = fadd y (sm_ascent (cache_metrics cache))
        in draw_baseline cache text x baseline_y blits)"

datatype text_align = align_left | align_center | align_right

definition draw_aligned ::
  "glyph_cache \<Rightarrow> byte list \<Rightarrow> float \<Rightarrow> float \<Rightarrow> float \<Rightarrow> text_align \<Rightarrow> blit_call list
     \<Rightarrow> draw_outcome" where
  "draw_aligned cache text x y width align blits =
     (if text = []
      then \<lparr>dr_error = None, dr_width = Finite 0, dr_cache = cache, dr_blits = blits\<rparr>
      else
        case cache_measure cache text of
          Inl e \<Rightarrow>
            \<lparr>dr_error = Some e, dr_width = Finite 0, dr_cache = cache, dr_blits = blits\<rparr>
        | Inr extents \<Rightarrow>
            let text_width = te_width extents;
                offset_x = (case align of
                              align_left \<Rightarrow> Finite 0
                            | align_center \<Rightarrow> fdiv (fsub width text_width) (Finite 2)
                            | align_right \<Rightarrow> fsub width text_width)
            in draw cache text (fadd x offset_x) y blits)"

subsection \<open>Greedy word wrap\<close>

text \<open>
  The pointers \<open>line_start\<close>, \<open>word_start\<close> and \<open>current\<close> are offsets into the text;
  a produced line is the byte range it views.
\<close>

record wrap_state =
  ws_lines :: "byte list list"
  ws_line_start :: nat
  ws_word_start :: nat
  ws_current :: nat
  ws_line_width :: float
  ws_word_width :: float

definition slice :: "byte list \<Rightarrow> nat \<Rightarrow> nat \<Rightarrow> byte list" where
  "slice text from until = take (until - from) (drop from text)"

text \<open>
  \<^verbatim>\<open>while (line_end > line_start && *(line_end - 1) == ' ') --line_end;\<close>
\<close>

fun trim_end :: "byte list \<Rightarrow> nat \<Rightarrow> nat \<Rightarrow> nat" where
  "trim_end text line_start 0 = 0"
| "trim_end text line_start (Suc e) =
     (if Suc e > line_start \<and> text ! e = 0x20 then trim_end text line_start e else Suc e)"

definition flush_line :: "byte list \<Rightarrow> wrap_state \<Rightarrow> wrap_state" where
  "flush_line text st =
     (let lines =
            (if ws_current st > ws_line_start st
             then
               let line_end = trim_end text (ws_line_start st) (ws_current st)
               in if line_end > ws_line_start st
                  then ws_lines st @ [slice text (ws_line_start st) line_end]
                  else ws_lines st
             else ws_lines st)
      in st\<lparr>ws_lines := lines, ws_line_start := ws_current st, ws_line_width := Finite 0\<rparr>)"

text \<open>The body of the loop of \<open>wrap_lines\<close> for a decoded codepoint other than a newline.\<close>

definition wrap_glyph ::
  "byte list \<Rightarrow> float \<Rightarrow> char32 \<Rightarrow> nat \<Rightarrow> float \<Rightarrow> wrap_state \<Rightarrow> wrap_state" where
  "wrap_glyph text max_width cp bytes advance st =
     (let st1 = (if cp = 0x20
                 then st\<lparr>ws_word_start := ws_current st + bytes, ws_word_width := Finite 0\<rparr>
                 else st);
          st2 = (if flt max_width (fadd (ws_line_width st1) advance)
                    \<and> flt (Finite 0) (ws_line_width st1)
                 then
                   if ws_word_start st1 > ws_line_start st1 \<and> ws_word_start st1 \<le> ws_current st1
                   then
                     let saved_current = ws_current st1;
                         flushed = flush_line text (st1\<lparr>ws_current := ws_word_start st1\<rparr>)
                     in flushed\<lparr>ws_current := saved_current,
                                ws_line_start := ws_word_start st1,
                                ws_line_width := ws_word_width st1\<rparr>
                   else
                     (flush_line text st1)\<lparr>ws_line_start := ws_current st1,
                                           ws_line_width := Finite 0\<rparr>
                 else st1)
      in st2\<lparr>ws_word_width := fadd (ws_word_width st2) advance,
              ws_line_width := fadd (ws_line_width st2) advance,
              ws_current := ws_current st2 + bytes\<rparr>)"

definition wrap_newline :: "byte list \<Rightarrow> nat \<Rightarrow> wrap_state \<Rightarrow> wrap_state" where
  "wrap_newline text bytes st =
     (let flushed = flush_line text (st\<lparr>ws_current := ws_current st + bytes\<rparr>)
      in flushed\<lparr>ws_line_start := ws_current flushed,
                 ws_word_start := ws_current flushed,
                 ws_word_width := Finite 0\<rparr>)"

lemma wrap_glyph_current:
  "ws_current (wrap_glyph text max_width cp bytes advance st) = ws_current st + bytes"
  by (simp add: wrap_glyph_def flush_line_def Let_def)

lemma wrap_newline_current:
  "ws_current (wrap_newline text bytes st) = ws_current st + bytes"
  by (simp add: wrap_newline_def flush_line_def Let_def)

lemma bytes_consumed_range:
  "0 \<le> bytes_consumed (utf8_decode_one str) \<and> bytes_consumed (utf8_decode_one str) \<le> 4"
  by (simp add: utf8_decode_one_def Let_def)

function wrap_loop ::
  "text_rasterizer \<Rightarrow> byte list \<Rightarrow> float \<Rightarrow> wrap_state \<Rightarrow> error + wrap_state" where
  "wrap_loop r text max_width st =
     (if \<not> ws_current st < length text then Inr st
      else
        let d = utf8_decode_one (drop (ws_current st) text);
            cp = codepoint d;
            bytes = bytes_consumed d
        in if bytes = 0 then Inr st
           else if cp = 0x0A then wrap_loop r text max_width (wrap_newline text (nat bytes) st)
           else (case measure_glyph r cp of
                   Inl e \<Rightarrow> Inl e
                 | Inr metrics \<Rightarrow>
                     wrap_loop r text max_width
                       (wrap_glyph text max_width cp (nat bytes) (gm_advance_x metrics) st)))"
  by pat_completeness auto
termination
proof (relation "measure (\<lambda>(r, t, max_width, st). length t - ws_current st)")
  show "wf (measure (\<lambda>(r, t, max_width, st). length t - ws_current st))" by simp
next
  fix r :: text_rasterizer and t :: "byte list" and max_width :: float and st :: wrap_state
    and d cp bytes
  assume a: "\<not> \<not> ws_current st < length t" "d = utf8_decode_one (drop (ws_current st) t)"
    "bytes = bytes_consumed d" "bytes \<noteq> 0"
  from a(2,3,4) bytes_consumed_range[of "drop (ws_current st) t"] have "0 < nat bytes" by simp
  with a(1) show "((r, t, max_width, wrap_newline t (nat bytes) st), r, t, max_width, st)
          \<in> measure (\<lambda>(r, t, max_width, st). length t - ws_current st)"
    by (simp add: wrap_newline_current)
next
  fix r :: text_rasterizer and t :: "byte list" and max_width :: float and st :: wrap_state
    and d cp bytes metrics
  assume a: "\<not> \<not> ws_current st < length t" "d = utf8_decode_one (drop (ws_current st) t)"
    "bytes = bytes_consumed d" "bytes \<noteq> 0"
  from a(2,3,4) bytes_consumed_range[of "drop (ws_current st) t"] have "0 < nat bytes" by simp
  with a(1) show "((r, t, max_width,
            wrap_glyph t max_width cp (nat bytes) (gm_advance_x metrics) st), r, t, max_width, st)
          \<in> measure (\<lambda>(r, t, max_width, st). length t - ws_current st)"
    by (simp add: wrap_glyph_current)
qed

declare wrap_loop.simps [simp del]

definition wrap_lines :: "text_rasterizer \<Rightarrow> byte list \<Rightarrow> float \<Rightarrow> error + byte list list" where
  "wrap_lines r text max_width =
     (if text = [] \<or> fle max_width (Finite 0) then Inr []
      else
        case wrap_loop r text max_width
               \<lparr>ws_lines = [], ws_line_start = 0, ws_word_start = 0, ws_current = 0,
                ws_line_width = Finite 0, ws_word_width = Finite 0\<rparr> of
          Inl e \<Rightarrow> Inl e
        | Inr st \<Rightarrow>
            Inr (if ws_current st > ws_line_start st
                 then ws_lines st @ [slice text (ws_line_start st) (ws_current st)]
                 else ws_lines st))"

record text_box =
  box_x :: float
  box_y :: float
  box_w :: float
  box_h :: float

text \<open>
  The loop of \<open>draw_wrapped\<close> over the wrapped lines; the state is the cache, the blit
  calls so far, \<open>current_y\<close> and \<open>lines_drawn\<close>.
\<close>

fun draw_lines ::
  "text_box \<Rightarrow> text_align \<Rightarrow> float \<Rightarrow> byte list list \<Rightarrow> glyph_cache \<Rightarrow> blit_call list \<Rightarrow> float
     \<Rightarrow> int \<Rightarrow> error option \<times> int \<times> glyph_cache \<times> blit_call list" where
  "draw_lines box align line_h [] cache blits current_y lines_drawn =
     (None, lines_drawn, cache, blits)"
| "draw_lines box align line_h (line # rest) cache blits current_y lines_drawn =
     (if flt (fadd (box_y box) (box_h box)) (fadd current_y line_h)
      then (None, lines_drawn, cache, blits)
      else
        let out = draw_aligned cache line (box_x box) current_y (box_w box) align blits
        in case dr_error out of
             Some e \<Rightarrow> (Some e, lines_drawn, dr_cache out, dr_blits out)
           | None \<Rightarrow>
               draw_lines box align line_h rest (dr_cache out) (dr_blits out)
                 (fadd current_y line_h) (lines_drawn + 1))"

definition draw_wrapped ::
  "glyph_cache \<Rightarrow> byte list \<Rightarrow> text_box \<Rightarrow> text_align \<Rightarrow> blit_call list
     \<Rightarrow> error option \<times> int \<times> glyph_cache \<times> blit_call list" where
  "draw_wrapped cache text box align blits =
     (if text = [] then (None, 0, cache, blits)
      else
        case wrap_lines (m_rasterizer cache) text (box_w box) of
          Inl e \<Rightarrow> (Some e, 0, cache, blits)
        | Inr lines \<Rightarrow>
            draw_lines box align (cache_line_height cache) lines cache blits (box_y box) 0)"

subsection \<open>The pen position, from the font alone\<close>

text \<open>
  The advance the rasterizer measures for a codepoint (\<open>measure_glyph\<close> never fails), the
  pen position after a run of codepoints when every one of them moves the pen by the kerning
  to its predecessor plus its advance, and whether a recorded blit call has a rectangle of
  positive width and height.
\<close>

definition advance_of :: "text_rasterizer \<Rightarrow> char32 \<Rightarrow> float" where
  "advance_of r cp = gm_advance_x (projr (measure_glyph r cp))"

fun pen_after :: "text_rasterizer \<Rightarrow> char32 list \<Rightarrow> float \<times> char32 \<Rightarrow> float" where
  "pen_after r [] (pen_x, prev_codepoint) = pen_x"
| "pen_after r (cp # cps) (pen_x, prev_codepoint) =
     pen_after r cps
       (fadd (if prev_codepoint \<noteq> 0 then fadd pen_x (rasterizer_kerning r prev_codepoint cp)
              else pen_x)
          (advance_of r cp), cp)"

definition visible :: "blit_call \<Rightarrow> bool" where
  "visible b = (rect_w (blit_src b) > 0 \<and> rect_h (blit_src b) > 0)"


text \<open>The rasterizer of the example cache.\<close>

definition demo_rasterizer :: text_rasterizer where
  "demo_rasterizer = \<lparr>m_source = bitmap_ref demo_font, m_size = Finite 12\<rparr>"


section \<open>Decoder progress\<close>

text \<open>
  C4. On the empty byte sequence \<open>utf8_decode_one\<close> returns the pair (U+FFFD, 0); on every
  other byte sequence the number of bytes it reports as consumed is at least 1.
\<close>

theorem utf8_decode_one_progress:
  "utf8_decode_one [] = \<lparr>codepoint = 0xFFFD, bytes_consumed = 0\<rparr>
   \<and> (str \<noteq> [] \<longrightarrow> bytes_consumed (utf8_decode_one str) \<ge> 1)"
  by (simp add: utf8_decode_one_def REPLACEMENT_CHAR_def Let_def)

theorem utf8_decode_one_progress_witness:
  "utf8_decode_one [] = \<lparr>codepoint = 0xFFFD, bytes_consumed = 0\<rparr>
   \<and> [0xE4, 0xB8 :: byte] \<noteq> [] \<and> bytes_consumed (utf8_decode_one [0xE4, 0xB8]) \<ge> 1"
  using utf8_decode_one_progress [of "[0xE4, 0xB8]"] by simp


subsection \<open>Bit masks and byte ranges\<close>

lemma unat_byte_lt: "unat (b::byte) < 256"
  using unsigned_less[of b, where 'a=nat] by simp

lemma unat_and_high: "unat ((b::byte) AND NOT (mask k)) = unat b div 2 ^ k * 2 ^ k"
proof -
  have "b AND NOT (mask k) = push_bit k (drop_bit k b)"
    by (rule bit_word_eqI) (auto simp: bit_simps)
  moreover have "unat (push_bit k (drop_bit k b)) = unat b div 2 ^ k * 2 ^ k"
  proof -
    have "unat b div 2 ^ k * 2 ^ k \<le> unat b" by simp
    then have "unat b div 2 ^ k * 2 ^ k < 256" using unat_byte_lt[of b] by (rule le_less_trans)
    then have "unat b div 2 ^ k * 2 ^ k < 2 ^ 8" by simp
    then have t: "take_bit 8 (unat b div 2 ^ k * 2 ^ k) = unat b div 2 ^ k * 2 ^ k"
      by (rule take_bit_nat_eq_self)
    have n: "push_bit k (drop_bit k (unat b)) = unat b div 2 ^ k * 2 ^ k"
      by (simp add: push_bit_eq_mult drop_bit_eq_div)
    have "unat (push_bit k (drop_bit k b)) = take_bit 8 (push_bit k (drop_bit k (unat b)))"
      using unat_byte_lt[of b]
      by (simp add: unsigned_push_bit_eq unsigned_drop_bit_eq take_bit_nat_eq_self)
    then show ?thesis
      unfolding n t .
  qed
  ultimately show ?thesis by simp
qed

lemma unat_and_low: "unat ((b::byte) AND mask k) = unat b mod 2 ^ k"
proof -
  have "unat (take_bit k b) = take_bit k (unat b)"
    by (simp add: unsigned_take_bit_eq)
  then show ?thesis
    by (simp add: take_bit_eq_mask[symmetric] take_bit_eq_mod[where 'a=nat])
qed

lemma byte_masks:
  "(0xC0::byte) = NOT (mask 6)" "(0xE0::byte) = NOT (mask 5)" "(0xF0::byte) = NOT (mask 4)"
  "(0xF8::byte) = NOT (mask 3)" "(0x3F::byte) = mask 6" "(0x1F::byte) = mask 5"
  "(0x0F::byte) = mask 4" "(0x07::byte) = mask 3"
  by (simp_all add: mask_eq_exp_minus_1)

lemma div_window:
  assumes "0 < (k::nat)"
  shows "(n div k * k = q * k) = (q * k \<le> n \<and> n < Suc q * k)"
proof -
  have "(n div k * k = q * k) = (n div k = q)" using assms by simp
  also have "\<dots> = (q \<le> n div k \<and> n div k < Suc q)" by auto
  also have "\<dots> = (q * k \<le> n \<and> n < Suc q * k)"
    using assms by (simp only: less_eq_div_iff_mult_less_eq div_less_iff_less_mult)
  finally show ?thesis .
qed

lemma mod_window:
  assumes "0 < (k::nat)" "q * k \<le> n" "n < Suc q * k"
  shows "n mod k = n - q * k"
proof -
  have "n div k * k = q * k" using div_window[OF assms(1), of n q] assms(2,3) by simp
  moreover have "n = n div k * k + n mod k" by simp
  ultimately show ?thesis by linarith
qed

lemma lead_ascii: "(b < 0x80) = (b \<le> (0x7F::byte))"
  by (simp add: word_less_nat_alt word_le_nat_alt) arith

lemma lead_cont: "(b AND 0xC0 = 0x80) = (0x80 \<le> b \<and> b \<le> (0xBF::byte))"
proof -
  have "(b AND 0xC0 = 0x80) = (unat (b AND NOT (mask 6)) = 128)"
    unfolding byte_masks(1) by (simp add: word_eq_iff_unsigned[where 'a=nat])
  also have "\<dots> = (128 \<le> unat b \<and> unat b \<le> 191)"
    unfolding unat_and_high using div_window[of 64 "unat b" 2] by auto
  finally show ?thesis by (simp add: word_le_nat_alt)
qed

lemma lead_two: "(b AND 0xE0 = 0xC0) = (0xC0 \<le> b \<and> b \<le> (0xDF::byte))"
proof -
  have "(b AND 0xE0 = 0xC0) = (unat (b AND NOT (mask 5)) = 192)"
    unfolding byte_masks(2) by (simp add: word_eq_iff_unsigned[where 'a=nat])
  also have "\<dots> = (192 \<le> unat b \<and> unat b \<le> 223)"
    unfolding unat_and_high using div_window[of 32 "unat b" 6] by auto
  finally show ?thesis by (simp add: word_le_nat_alt)
qed

lemma lead_three: "(b AND 0xF0 = 0xE0) = (0xE0 \<le> b \<and> b \<le> (0xEF::byte))"
proof -
  have "(b AND 0xF0 = 0xE0) = (unat (b AND NOT (mask 4)) = 224)"
    unfolding byte_masks(3) by (simp add: word_eq_iff_unsigned[where 'a=nat])
  also have "\<dots> = (224 \<le> unat b \<and> unat b \<le> 239)"
    unfolding unat_and_high using div_window[of 16 "unat b" 14] by auto
  finally show ?thesis by (simp add: word_le_nat_alt)
qed

lemma lead_four: "(b AND 0xF8 = 0xF0) = (0xF0 \<le> b \<and> b \<le> (0xF7::byte))"
proof -
  have "(b AND 0xF8 = 0xF0) = (unat (b AND NOT (mask 3)) = 240)"
    unfolding byte_masks(4) by (simp add: word_eq_iff_unsigned[where 'a=nat])
  also have "\<dots> = (240 \<le> unat b \<and> unat b \<le> 247)"
    unfolding unat_and_high using div_window[of 8 "unat b" 30] by auto
  finally show ?thesis by (simp add: word_le_nat_alt)
qed

lemma payload_two:
  assumes "0xC0 \<le> b" "b \<le> (0xDF::byte)"
  shows "unat (b AND 0x1F) = unat b - 0xC0"
proof -
  from assms have "6 * 32 \<le> unat b" "unat b < Suc 6 * 32" by (simp_all add: word_le_nat_alt)
  then have "unat b mod 32 = unat b - 6 * 32" by (intro mod_window) simp_all
  then show ?thesis unfolding byte_masks unat_and_low by simp
qed

lemma payload_three:
  assumes "0xE0 \<le> b" "b \<le> (0xEF::byte)"
  shows "unat (b AND 0x0F) = unat b - 0xE0"
proof -
  from assms have "14 * 16 \<le> unat b" "unat b < Suc 14 * 16" by (simp_all add: word_le_nat_alt)
  then have "unat b mod 16 = unat b - 14 * 16" by (intro mod_window) simp_all
  then show ?thesis unfolding byte_masks unat_and_low by simp
qed

lemma payload_four:
  assumes "0xF0 \<le> b" "b \<le> (0xF7::byte)"
  shows "unat (b AND 0x07) = unat b - 0xF0"
proof -
  from assms have "30 * 8 \<le> unat b" "unat b < Suc 30 * 8" by (simp_all add: word_le_nat_alt)
  then have "unat b mod 8 = unat b - 30 * 8" by (intro mod_window) simp_all
  then show ?thesis unfolding byte_masks unat_and_low by simp
qed

lemma payload_trail:
  assumes "0x80 \<le> b" "b \<le> (0xBF::byte)"
  shows "unat (b AND 0x3F) = unat b - 0x80"
proof -
  from assms have "2 * 64 \<le> unat b" "unat b < Suc 2 * 64" by (simp_all add: word_le_nat_alt)
  then have "unat b mod 64 = unat b - 2 * 64" by (intro mod_window) simp_all
  then show ?thesis unfolding byte_masks unat_and_low by simp
qed

lemma is_continuation_trail: "is_continuation b = trail_byte b"
  by (simp add: is_continuation_def trail_byte_def lead_cont)

lemma decode_2:
  "push_bit 6 (promote ((a::byte) AND 0x1F)) OR promote ((b::byte) AND 0x3F)
   = promote (a AND 0x1F) * 64 + promote (b AND 0x3F)"
proof -
  have *: "(63::8 word) = mask 6" "(31::8 word) = mask 5" by (simp_all add: mask_eq_exp_minus_1)
  have "push_bit 6 (ucast (a AND 0x1F) :: 32 word) AND ucast (b AND 0x3F) = 0"
    unfolding * by (rule bit_word_eqI) (auto simp: bit_simps)
  then show ?thesis
    by (simp add: disjunctive_add_eq_or push_bit_eq_mult promote_def)
qed

lemma decode_3:
  "push_bit 12 (promote ((a::byte) AND 0x0F)) OR push_bit 6 (promote ((b::byte) AND 0x3F))
     OR promote ((c::byte) AND 0x3F)
   = promote (a AND 0x0F) * 4096 + promote (b AND 0x3F) * 64 + promote (c AND 0x3F)"
proof -
  have *: "(63::8 word) = mask 6" "(15::8 word) = mask 4" by (simp_all add: mask_eq_exp_minus_1)
  have 1: "push_bit 12 (ucast (a AND 0x0F) :: 32 word) AND push_bit 6 (ucast (b AND 0x3F)) = 0"
    unfolding * by (rule bit_word_eqI) (auto simp: bit_simps)
  have 2: "(push_bit 12 (ucast (a AND 0x0F) :: 32 word) OR push_bit 6 (ucast (b AND 0x3F)))
             AND ucast (c AND 0x3F) = 0"
    unfolding * by (rule bit_word_eqI) (auto simp: bit_simps)
  have "push_bit 12 (ucast (a AND 0x0F) :: 32 word) OR push_bit 6 (ucast (b AND 0x3F))
          OR ucast (c AND 0x3F)
        = push_bit 12 (ucast (a AND 0x0F)) + push_bit 6 (ucast (b AND 0x3F)) + ucast (c AND 0x3F)"
    using 1 2 by (simp add: disjunctive_add_eq_or or.assoc)
  then show ?thesis
    by (simp add: push_bit_eq_mult promote_def)
qed

lemma decode_4:
  "push_bit 18 (promote ((a::byte) AND 0x07)) OR push_bit 12 (promote ((b::byte) AND 0x3F))
     OR push_bit 6 (promote ((c::byte) AND 0x3F)) OR promote ((d::byte) AND 0x3F)
   = promote (a AND 0x07) * 262144 + promote (b AND 0x3F) * 4096 + promote (c AND 0x3F) * 64
     + promote (d AND 0x3F)"
proof -
  have *: "(63::8 word) = mask 6" "(7::8 word) = mask 3" by (simp_all add: mask_eq_exp_minus_1)
  have 1: "push_bit 18 (ucast (a AND 0x07) :: 32 word) AND push_bit 12 (ucast (b AND 0x3F)) = 0"
    unfolding * by (rule bit_word_eqI) (auto simp: bit_simps)
  have 2: "(push_bit 18 (ucast (a AND 0x07) :: 32 word) OR push_bit 12 (ucast (b AND 0x3F)))
             AND push_bit 6 (ucast (c AND 0x3F)) = 0"
    unfolding * by (rule bit_word_eqI) (auto simp: bit_simps)
  have 3: "(push_bit 18 (ucast (a AND 0x07) :: 32 word) OR push_bit 12 (ucast (b AND 0x3F))
             OR push_bit 6 (ucast (c AND 0x3F))) AND ucast (d AND 0x3F) = 0"
    unfolding * by (rule bit_word_eqI) (auto simp: bit_simps)
  have "push_bit 18 (ucast (a AND 0x07) :: 32 word) OR push_bit 12 (ucast (b AND 0x3F))
          OR push_bit 6 (ucast (c AND 0x3F)) OR ucast (d AND 0x3F)
        = push_bit 18 (ucast (a AND 0x07)) + push_bit 12 (ucast (b AND 0x3F))
          + push_bit 6 (ucast (c AND 0x3F)) + ucast (d AND 0x3F)"
    using 1 2 3 by (simp add: disjunctive_add_eq_or or.assoc)
  then show ?thesis
    by (simp add: push_bit_eq_mult promote_def)
qed

lemma unat_promote: "unat (promote b) = unat b"
proof -
  have "unat b < 2 ^ 32" using unat_byte_lt[of b] by simp
  then show ?thesis by (simp add: promote_def unsigned_ucast_eq take_bit_nat_eq_self)
qed

lemma unat_2: "unat (promote a * 64 + promote b) = unat a * 64 + unat b"
  using unat_byte_lt[of a] unat_byte_lt[of b]
  by (simp add: unat_word_ariths unat_promote)

lemma unat_3:
  "unat (promote a * 4096 + promote b * 64 + promote c) = unat a * 4096 + unat b * 64 + unat c"
  using unat_byte_lt[of a] unat_byte_lt[of b] unat_byte_lt[of c]
  by (simp add: unat_word_ariths unat_promote)

lemma unat_4:
  "unat (promote a * 262144 + promote b * 4096 + promote c * 64 + promote d)
    = unat a * 262144 + unat b * 4096 + unat c * 64 + unat d"
  using unat_byte_lt[of a] unat_byte_lt[of b] unat_byte_lt[of c] unat_byte_lt[of d]
  by (simp add: unat_word_ariths unat_promote)

lemma unat_minus: "c \<le> (b::byte) \<Longrightarrow> unat (b - c) = unat b - unat c"
  by (simp add: unat_sub)

text \<open>The value the decoder computes for a two-byte sequence.\<close>

lemma cp_two:
  assumes "sequence_length a = 2" "trail_byte b"
  shows "unat (push_bit 6 (promote (a AND 0x1F)) OR promote (b AND 0x3F)) = scalar_value (a # b # r)"
proof -
  from assms(1) have a: "0xC0 \<le> a" "a \<le> 0xDF"
    by (auto simp: sequence_length_def split: if_splits)
  from assms(2) have b: "0x80 \<le> b" "b \<le> 0xBF" by (auto simp: trail_byte_def)
  show ?thesis
    unfolding decode_2 unat_2 using assms(1) a b
    by (simp add: payload_two payload_trail scalar_value_def)
qed

lemma cp_three:
  assumes "sequence_length a = 3" "trail_byte b" "trail_byte c"
  shows "unat (push_bit 12 (promote (a AND 0x0F)) OR push_bit 6 (promote (b AND 0x3F))
               OR promote (c AND 0x3F)) = scalar_value (a # b # c # r)"
proof -
  from assms(1) have a: "0xE0 \<le> a" "a \<le> 0xEF"
    by (auto simp: sequence_length_def split: if_splits)
  from assms(2,3) have b: "0x80 \<le> b" "b \<le> 0xBF" "0x80 \<le> c" "c \<le> 0xBF"
    by (auto simp: trail_byte_def)
  show ?thesis
    unfolding decode_3 unat_3 using assms(1) a b
    by (simp add: payload_three payload_trail scalar_value_def)
qed

lemma cp_four:
  assumes "sequence_length a = 4" "trail_byte b" "trail_byte c" "trail_byte d"
  shows "unat (push_bit 18 (promote (a AND 0x07)) OR push_bit 12 (promote (b AND 0x3F))
               OR push_bit 6 (promote (c AND 0x3F)) OR promote (d AND 0x3F))
         = scalar_value (a # b # c # d # r)"
proof -
  from assms(1) have a: "0xF0 \<le> a" "a \<le> 0xF7"
    by (auto simp: sequence_length_def split: if_splits)
  from assms(2,3,4) have b: "0x80 \<le> b" "b \<le> 0xBF" "0x80 \<le> c" "c \<le> 0xBF"
      "0x80 \<le> d" "d \<le> 0xBF"
    by (auto simp: trail_byte_def)
  show ?thesis
    unfolding decode_4 unat_4 using assms(1) a b
    by (simp add: payload_four payload_trail scalar_value_def)
qed


lemma decode_nil: "utf8_decode_one [] = \<lparr>codepoint = 0xFFFD, bytes_consumed = 0\<rparr>"
  by (simp add: utf8_decode_one_def REPLACEMENT_CHAR_def)

lemma bad_lead_branch:
  assumes "sequence_length a = 0"
  shows "\<not> a < 0x80" "a AND 0xC0 = 0x80 \<or> 0xF8 \<le> a"
  using assms
  by (auto simp: sequence_length_def lead_cont word_le_nat_alt word_less_nat_alt
      split: if_splits)

lemma decode_bad_lead:
  assumes "sequence_length a = 0"
  shows "utf8_decode_one (a # r) = \<lparr>codepoint = 0xFFFD, bytes_consumed = 1\<rparr>"
  using bad_lead_branch[OF assms]
  by (auto simp: utf8_decode_one_def REPLACEMENT_CHAR_def Let_def)

lemma decode_ascii:
  assumes "sequence_length a = 1"
  shows "utf8_decode_one (a # r) = \<lparr>codepoint = promote a, bytes_consumed = 1\<rparr>"
  using assms
  by (simp add: utf8_decode_one_def Let_def sequence_length_def lead_ascii split: if_splits)

lemma lead_two_branch:
  assumes "sequence_length a = 2"
  shows "\<not> a < 0x80" "a AND 0xC0 \<noteq> 0x80" "\<not> 0xF8 \<le> a" "a AND 0xE0 = 0xC0"
  using assms
  by (auto simp: sequence_length_def lead_ascii lead_cont lead_two word_le_nat_alt
      split: if_splits)

lemma lead_three_branch:
  assumes "sequence_length a = 3"
  shows "\<not> a < 0x80" "a AND 0xC0 \<noteq> 0x80" "\<not> 0xF8 \<le> a" "a AND 0xE0 \<noteq> 0xC0"
    "a AND 0xF0 = 0xE0"
  using assms
  by (auto simp: sequence_length_def lead_ascii lead_cont lead_two lead_three word_le_nat_alt
      split: if_splits)

lemma lead_four_branch:
  assumes "sequence_length a = 4"
  shows "\<not> a < 0x80" "a AND 0xC0 \<noteq> 0x80" "\<not> 0xF8 \<le> a" "a AND 0xE0 \<noteq> 0xC0"
    "a AND 0xF0 \<noteq> 0xE0" "a AND 0xF8 = 0xF0"
  using assms
  by (auto simp: sequence_length_def lead_ascii lead_cont lead_two lead_three lead_four
      word_le_nat_alt split: if_splits)

lemma decode_two_short:
  assumes "sequence_length a = 2" "r = [] \<or> \<not> trail_byte (r ! 0)"
  shows "utf8_decode_one (a # r) = \<lparr>codepoint = 0xFFFD, bytes_consumed = 1\<rparr>"
  using assms(2) lead_two_branch[OF assms(1)]
  by (cases r) (auto simp: utf8_decode_one_def REPLACEMENT_CHAR_def Let_def is_continuation_trail)

lemma decode_two_full:
  assumes "sequence_length a = 2" "trail_byte b"
  shows "utf8_decode_one (a # b # r) =
    (if scalar_value (a # b # r) < 0x80 then \<lparr>codepoint = 0xFFFD, bytes_consumed = 2\<rparr>
     else \<lparr>codepoint = of_nat (scalar_value (a # b # r)), bytes_consumed = 2\<rparr>)"
proof -
  define cp where "cp = push_bit 6 (promote (a AND 0x1F)) OR promote (b AND 0x3F)"
  have v: "unat cp = scalar_value (a # b # r)"
    unfolding cp_def by (rule cp_two[OF assms])
  then have w: "cp = of_nat (scalar_value (a # b # r))" by (metis of_nat_unat ucast_id)
  have "utf8_decode_one (a # b # r) =
    (if cp < 0x80 then \<lparr>codepoint = 0xFFFD, bytes_consumed = 2\<rparr>
     else \<lparr>codepoint = cp, bytes_consumed = 2\<rparr>)"
    using assms(2) lead_two_branch[OF assms(1)]
    by (simp add: utf8_decode_one_def REPLACEMENT_CHAR_def Let_def is_continuation_trail cp_def)
  then show ?thesis
    unfolding word_less_nat_alt v w[symmetric] by simp
qed


lemma decode_three_short:
  assumes "sequence_length a = 3"
    "length r < 2 \<or> \<not> trail_byte (r ! 0) \<or> \<not> trail_byte (r ! 1)"
  shows "utf8_decode_one (a # r) = \<lparr>codepoint = 0xFFFD, bytes_consumed = 1\<rparr>"
  using assms(2) lead_three_branch[OF assms(1)]
  by (auto simp: utf8_decode_one_def REPLACEMENT_CHAR_def Let_def is_continuation_trail)

lemma decode_three_full:
  assumes "sequence_length a = 3" "trail_byte b" "trail_byte c"
  shows "utf8_decode_one (a # b # c # r) =
    (if scalar_value (a # b # c # r) < 0x800
        \<or> (0xD800 \<le> scalar_value (a # b # c # r) \<and> scalar_value (a # b # c # r) \<le> 0xDFFF)
     then \<lparr>codepoint = 0xFFFD, bytes_consumed = 3\<rparr>
     else \<lparr>codepoint = of_nat (scalar_value (a # b # c # r)), bytes_consumed = 3\<rparr>)"
proof -
  define cp where "cp = push_bit 12 (promote (a AND 0x0F)) OR push_bit 6 (promote (b AND 0x3F))
                        OR promote (c AND 0x3F)"
  have v: "unat cp = scalar_value (a # b # c # r)"
    unfolding cp_def by (rule cp_three[OF assms])
  then have w: "cp = of_nat (scalar_value (a # b # c # r))" by (metis of_nat_unat ucast_id)
  have "utf8_decode_one (a # b # c # r) =
    (if cp < 0x800 \<or> (0xD800 \<le> cp \<and> cp \<le> 0xDFFF)
     then \<lparr>codepoint = 0xFFFD, bytes_consumed = 3\<rparr>
     else \<lparr>codepoint = cp, bytes_consumed = 3\<rparr>)"
    using assms(2,3) lead_three_branch[OF assms(1)]
    by (simp add: utf8_decode_one_def REPLACEMENT_CHAR_def Let_def is_continuation_trail cp_def)
  then show ?thesis
    unfolding word_less_nat_alt word_le_nat_alt v w[symmetric] by simp
qed

lemma decode_four_short:
  assumes "sequence_length a = 4"
    "length r < 3 \<or> \<not> trail_byte (r ! 0) \<or> \<not> trail_byte (r ! 1) \<or> \<not> trail_byte (r ! 2)"
  shows "utf8_decode_one (a # r) = \<lparr>codepoint = 0xFFFD, bytes_consumed = 1\<rparr>"
  using assms(2) lead_four_branch[OF assms(1)]
  by (auto simp: utf8_decode_one_def REPLACEMENT_CHAR_def Let_def is_continuation_trail)

lemma decode_four_full:
  assumes "sequence_length a = 4" "trail_byte b" "trail_byte c" "trail_byte d"
  shows "utf8_decode_one (a # b # c # d # r) =
    (if scalar_value (a # b # c # d # r) < 0x10000 \<or> 0x10FFFF < scalar_value (a # b # c # d # r)
     then \<lparr>codepoint = 0xFFFD, bytes_consumed = 4\<rparr>
     else \<lparr>codepoint = of_nat (scalar_value (a # b # c # d # r)), bytes_consumed = 4\<rparr>)"
proof -
  define cp where "cp = push_bit 18 (promote (a AND 0x07)) OR push_bit 12 (promote (b AND 0x3F))
                        OR push_bit 6 (promote (c AND 0x3F)) OR promote (d AND 0x3F)"
  have v: "unat cp = scalar_value (a # b # c # d # r)"
    unfolding cp_def by (rule cp_four[OF assms])
  then have w: "cp = of_nat (scalar_value (a # b # c # d # r))" by (metis of_nat_unat ucast_id)
  have "utf8_decode_one (a # b # c # d # r) =
    (if cp < 0x10000 \<or> 0x10FFFF < cp
     then \<lparr>codepoint = 0xFFFD, bytes_consumed = 4\<rparr>
     else \<lparr>codepoint = cp, bytes_consumed = 4\<rparr>)"
    using assms(2,3,4) lead_four_branch[OF assms(1)]
    by (simp add: utf8_decode_one_def REPLACEMENT_CHAR_def Let_def is_continuation_trail cp_def)
  then show ?thesis
    unfolding word_less_nat_alt word_le_nat_alt v w[symmetric] by simp
qed

lemma sequence_length_cases:
  "sequence_length a = 0 \<or> sequence_length a = 1 \<or> sequence_length a = 2
   \<or> sequence_length a = 3 \<or> sequence_length a = 4"
  by (simp add: sequence_length_def)

lemma scalar_two_bound:
  assumes "sequence_length a = 2" "trail_byte b"
  shows "scalar_value (a # b # r) < 0x800"
proof -
  from assms(1) have "a \<le> 0xDF" by (auto simp: sequence_length_def split: if_splits)
  then have "unat a \<le> 223" by (simp add: word_le_nat_alt)
  moreover from assms(2) have "unat b \<le> 191" by (simp add: trail_byte_def word_le_nat_alt)
  ultimately have "(unat a - 192) * 64 + (unat b - 128) < 2048" by arith
  then show ?thesis using assms(1) by (simp add: scalar_value_def)
qed

lemma scalar_three_bound:
  assumes "sequence_length a = 3" "trail_byte b" "trail_byte c"
  shows "scalar_value (a # b # c # r) < 0x10000"
proof -
  from assms(1) have "a \<le> 0xEF" by (auto simp: sequence_length_def split: if_splits)
  then have "unat a \<le> 239" by (simp add: word_le_nat_alt)
  moreover from assms(2,3) have "unat b \<le> 191" "unat c \<le> 191"
    by (simp_all add: trail_byte_def word_le_nat_alt)
  ultimately have "(unat a - 224) * 4096 + (unat b - 128) * 64 + (unat c - 128) < 65536"
    by arith
  then show ?thesis using assms(1) by (simp add: scalar_value_def)
qed

lemma well_formed_Cons:
  "well_formed (a # r) =
     (let n = sequence_length a
      in 0 < n \<and> n \<le> Suc (length r) \<and> list_all trail_byte (take (n - 1) r))"
  by (simp add: well_formed_def)

section \<open>Malformed input\<close>

text \<open>
  C3 (as amended). For every non-empty byte sequence that is malformed, \<open>utf8_decode_one\<close>
  returns U+FFFD. When the defect is structural (the lead byte is a trail byte \<open>80..BF\<close> or
  \<open>F8..FF\<close>, or a trail byte the lead announces is missing or outside \<open>80..BF\<close>) it
  consumes exactly 1 byte, the offending lead. When the sequence is structurally well formed
  but overlong, a surrogate, or beyond U+10FFFF, it consumes the whole sequence: as many bytes
  as the lead byte announces (2, 3 or 4).
\<close>

theorem utf8_decode_one_malformed:
  assumes "malformed bs"
  shows "utf8_decode_one bs =
    \<lparr>codepoint = 0xFFFD,
     bytes_consumed = (if well_formed bs then int (sequence_length (hd bs)) else 1)\<rparr>"
proof -
  from assms obtain a r where bs: "bs = a # r"
    by (cases bs) (auto simp: malformed_def)
  from assms have bad: "\<not> well_formed bs \<or> overlong bs \<or> surrogate bs \<or> beyond_unicode bs"
    by (simp add: malformed_def)
  consider (zero) "sequence_length a = 0" | (one) "sequence_length a = 1"
    | (two) "sequence_length a = 2" | (three) "sequence_length a = 3"
    | (four) "sequence_length a = 4"
    using sequence_length_cases[of a] by auto
  then show ?thesis
  proof cases
    case zero
    then show ?thesis by (simp add: bs decode_bad_lead well_formed_Cons)
  next
    case one
    then have "a \<le> 0x7F" by (auto simp: sequence_length_def split: if_splits)
    then have "unat a \<le> 127" by (simp add: word_le_nat_alt)
    with one bad have False
      by (auto simp: bs well_formed_Cons overlong_def surrogate_def beyond_unicode_def
          scalar_value_def)
    then show ?thesis ..
  next
    case two
    show ?thesis
    proof (cases "r = [] \<or> \<not> trail_byte (r ! 0)")
      case True
      then have "\<not> well_formed bs" using two by (cases r) (auto simp: bs well_formed_Cons)
      then show ?thesis using decode_two_short[OF two True] by (simp add: bs)
    next
      case False
      then obtain b r' where r: "r = b # r'" and b: "trail_byte b" by (cases r) auto
      have wf: "well_formed bs" using two b by (simp add: bs r well_formed_Cons)
      have "scalar_value bs < 0x800" unfolding bs r by (rule scalar_two_bound[OF two b])
      with bad wf two have "scalar_value bs < 0x80"
        by (auto simp: bs overlong_def surrogate_def beyond_unicode_def)
      then show ?thesis using decode_two_full[OF two b, of r'] wf two by (simp add: bs r)
    qed
  next
    case three
    show ?thesis
    proof (cases "length r < 2 \<or> \<not> trail_byte (r ! 0) \<or> \<not> trail_byte (r ! 1)")
      case True
      then have "\<not> well_formed bs" using three
        by (cases r; cases "tl r") (auto simp: bs well_formed_Cons)
      then show ?thesis using decode_three_short[OF three True] by (simp add: bs)
    next
      case False
      then obtain b c r' where r: "r = b # c # r'" and b: "trail_byte b" and c: "trail_byte c"
        by (cases r; cases "tl r") auto
      have wf: "well_formed bs" using three b c by (simp add: bs r well_formed_Cons)
      have "scalar_value bs < 0x10000" unfolding bs r by (rule scalar_three_bound[OF three b c])
      with bad wf three have "scalar_value bs < 0x800
          \<or> (0xD800 \<le> scalar_value bs \<and> scalar_value bs \<le> 0xDFFF)"
        by (auto simp: bs overlong_def surrogate_def beyond_unicode_def)
      then show ?thesis using decode_three_full[OF three b c, of r'] wf three by (simp add: bs r)
    qed
  next
    case four
    show ?thesis
    proof (cases "length r < 3 \<or> \<not> trail_byte (r ! 0) \<or> \<not> trail_byte (r ! 1)
                  \<or> \<not> trail_byte (r ! 2)")
      case True
      then have "\<not> well_formed bs" using four
        by (cases r; cases "tl r"; cases "tl (tl r)") (auto simp: bs well_formed_Cons)
      then show ?thesis using decode_four_short[OF four True] by (simp add: bs)
    next
      case False
      then obtain b c d r' where r: "r = b # c # d # r'"
        and b: "trail_byte b" and c: "trail_byte c" and d: "trail_byte d"
        by (cases r; cases "tl r"; cases "tl (tl r)") auto
      have wf: "well_formed bs" using four b c d by (simp add: bs r well_formed_Cons)
      from bad wf four have "scalar_value bs < 0x10000 \<or> 0x10FFFF < scalar_value bs"
        by (auto simp: bs overlong_def surrogate_def beyond_unicode_def)
      then show ?thesis using decode_four_full[OF four b c d, of r'] wf four by (simp add: bs r)
    qed
  qed
qed

theorem utf8_decode_one_malformed_witness:
  "malformed [0xED, 0xA0, 0x80] \<and> 
   utf8_decode_one [0xED, 0xA0, 0x80] = \<lparr>codepoint = 0xFFFD, bytes_consumed = 3\<rparr>"
proof -
  have l: "sequence_length 0xED = 3" by (simp add: sequence_length_def)
  have w: "well_formed [0xED, 0xA0, 0x80]"
    by (simp add: well_formed_Cons l trail_byte_def)
  have "scalar_value [0xED, 0xA0, 0x80] = 0xD800" by (simp add: scalar_value_def l)
  then have m: "malformed [0xED, 0xA0, 0x80]" by (simp add: malformed_def surrogate_def)
  show ?thesis using utf8_decode_one_malformed[OF m] m w l by simp
qed

text \<open>
  The claim as stated (every malformed sequence consumes exactly one byte) fails on the overlong
  two-byte encoding of \<open>/\<close>: both bytes are consumed.
\<close>

theorem utf8_decode_one_overlong_counterexample:
  "overlong [0xC0, 0xAF] \<and>
   utf8_decode_one [0xC0, 0xAF] = \<lparr>codepoint = 0xFFFD, bytes_consumed = 2\<rparr> \<and>
   bytes_consumed (utf8_decode_one [0xC0, 0xAF]) \<noteq> 1"
proof -
  have l: "sequence_length 0xC0 = 2" by (simp add: sequence_length_def)
  have o: "overlong [0xC0, 0xAF]" by (simp add: overlong_def scalar_value_def l)
  have "utf8_decode_one [0xC0, 0xAF] = \<lparr>codepoint = 0xFFFD, bytes_consumed = 2\<rparr>"
    by (simp add: utf8_decode_one_def is_continuation_def REPLACEMENT_CHAR_def promote_def)
  with o show ?thesis by simp
qed

section \<open>Floating point: exact cases of the rounding\<close>

text \<open>
  A value \<open>m * 2 powi e\<close> with a significand below \<open>2 ^ 24\<close> and an exponent of the
  format is a float, and rounding leaves it as it is. In particular integers up to
  \<open>2 ^ 24\<close> convert exactly.
\<close>

lemma round_to_even_of_int: "round_to_even (of_int k) = k"
  by (simp add: round_to_even_def)

lemma exponent_from_lower: "2 powi e \<le> a \<Longrightarrow> 2 powi (exponent_from a e) \<le> a"
proof (induction a e rule: exponent_from.induct)
  case (1 a e)
  show ?case
  proof (cases "e < 127 \<and> 2 powi (e + 1) \<le> a")
    case True
    then show ?thesis using 1 by (subst exponent_from.simps) simp
  next
    case False
    then show ?thesis using 1 by (subst exponent_from.simps) auto
  qed
qed

lemma exponent_from_least: "e \<le> exponent_from a e"
proof (induction a e rule: exponent_from.induct)
  case (1 a e)
  show ?case
  proof (cases "e < 127 \<and> 2 powi (e + 1) \<le> a")
    case True
    then show ?thesis using 1 by (subst exponent_from.simps) simp
  next
    case False
    then show ?thesis by (subst exponent_from.simps) auto
  qed
qed

lemma exponent_lowest: "exponent_from a (- 126) = - 126 \<or> 2 powi (exponent_from a (- 126)) \<le> a"
proof (cases "2 powi (- 125) \<le> a")
  case True
  then have "exponent_from a (- 126) = exponent_from a (- 125)"
    by (subst exponent_from.simps) simp
  then show ?thesis using exponent_from_lower[OF True] by simp
next
  case False
  then have "exponent_from a (- 126) = - 126"
    by (subst exponent_from.simps) simp
  then show ?thesis by simp
qed

lemma round_float_exact:
  assumes m: "\<bar>m\<bar> < 2 ^ 24" and e: "- 149 \<le> e" "e \<le> 104"
  shows "round_float (of_int m * 2 powi e) = Finite (of_int m * 2 powi e)"
proof -
  define x :: real where "x = of_int m * 2 powi e"
  define b where "b = exponent_from \<bar>x\<bar> (- 126)"
  have b_ge: "- 126 \<le> b" unfolding b_def by (rule exponent_from_least)
  have absx: "\<bar>x\<bar> = of_int \<bar>m\<bar> * 2 powi e" by (simp add: x_def abs_mult)
  have le: "b - 23 \<le> e"
  proof (cases "b = - 126")
    case True
    then show ?thesis using e by simp
  next
    case False
    then have "2 powi b \<le> \<bar>x\<bar>" using exponent_lowest[of "\<bar>x\<bar>"] by (simp add: b_def)
    also have "\<bar>x\<bar> < 2 ^ 24 * 2 powi e"
    proof -
      have "(of_int \<bar>m\<bar> :: real) < of_int (2 ^ 24)" using m by (simp only: of_int_less_iff)
      then show ?thesis unfolding absx by (simp add: mult_strict_right_mono)
    qed
    also have "\<dots> = 2 powi (24 + e)" by (simp add: power_int_add)
    finally have lt: "(2::real) powi b < 2 powi (24 + e)" .
    have "b < 24 + e"
    proof (rule ccontr)
      assume "\<not> b < 24 + e"
      then have "(2::real) powi (24 + e) \<le> 2 powi b" by (intro power_int_increasing) simp_all
      with lt show False by simp
    qed
    then show ?thesis by simp
  qed
  define k where "k = m * 2 ^ nat (e - (b - 23))"
  have pw: "(2::real) powi e = 2 ^ nat (e - (b - 23)) * 2 powi (b - 23)"
  proof -
    have "(2::real) powi e = 2 powi ((e - (b - 23)) + (b - 23))" by simp
    also have "\<dots> = 2 powi (e - (b - 23)) * 2 powi (b - 23)" by (rule power_int_add) simp
    also have "2 powi (e - (b - 23)) = (2::real) ^ nat (e - (b - 23))"
      using le by (simp add: power_int_nonneg_exp)
    finally show ?thesis .
  qed
  have xk: "x = of_int k * 2 powi (b - 23)" by (simp add: x_def k_def pw)
  have q: "x / 2 powi (b - 23) = of_int k" by (simp add: xk)
  have bound: "\<bar>x\<bar> < 2 powi 128"
  proof -
    have "(of_int \<bar>m\<bar> :: real) < of_int (2 ^ 24)" using m by (simp only: of_int_less_iff)
    then have "\<bar>x\<bar> < 2 ^ 24 * 2 powi e" unfolding absx by (simp add: mult_strict_right_mono)
    also have "\<dots> = 2 powi (24 + e)" by (simp add: power_int_add)
    also have "\<dots> \<le> 2 powi 128" using e by (intro power_int_increasing) simp_all
    finally show ?thesis .
  qed
  have "round_float x = Finite x"
    using bound unfolding round_float_def Let_def b_def[symmetric] q round_to_even_of_int xk[symmetric]
    by (auto simp: abs_less_iff)
  then show ?thesis by (simp add: x_def)
qed

lemma round_float_of_int: "\<bar>i\<bar> \<le> 2 ^ 24 \<Longrightarrow> round_float (of_int i) = Finite (of_int i)"
proof (cases "\<bar>i\<bar> = 2 ^ 24")
  case True
  then have "i = 2 ^ 24 \<or> i = - (2 ^ 24)" by linarith
  then show ?thesis
  proof
    assume "i = 2 ^ 24"
    then show ?thesis using round_float_exact[of "2 ^ 23" 1] by simp
  next
    assume "i = - (2 ^ 24)"
    then show ?thesis using round_float_exact[of "- (2 ^ 23)" 1] by simp
  qed
next
  case False
  assume "\<bar>i\<bar> \<le> 2 ^ 24"
  with False have "\<bar>i\<bar> < 2 ^ 24" by simp
  then show ?thesis using round_float_exact[of i 0] by simp
qed

lemma round_float_numeral:
  "numeral n \<le> (16777216::int) \<Longrightarrow> round_float (numeral n) = Finite (numeral n)"
  using round_float_of_int[of "numeral n"] by simp

lemma round_float_0: "round_float 0 = Finite 0"
  using round_float_of_int[of 0] by simp

lemma round_float_1: "round_float 1 = Finite 1"
  using round_float_of_int[of 1] by simp

lemma round_float_neg_numeral:
  "numeral n \<le> (16777216::int) \<Longrightarrow> round_float (- numeral n) = Finite (- numeral n)"
  using round_float_of_int[of "- numeral n"] by simp

lemma float_of_int_exact: "\<bar>i\<bar> \<le> 2 ^ 24 \<Longrightarrow> float_of_int i = Finite (of_int i)"
  by (simp add: float_of_int_def round_float_of_int)

lemma fadd_exact:
  assumes "\<bar>m\<bar> < 2 ^ 24" "- 149 \<le> e" "e \<le> 104" "x + y = of_int m * 2 powi e"
  shows "fadd (Finite x) (Finite y) = Finite (x + y)"
  using round_float_exact[OF assms(1,2,3)] assms(4) by simp

lemmas float_exact = round_float_numeral round_float_neg_numeral round_float_0 round_float_1

text \<open>
  Where the rounding shows. At \<open>2 ^ 27\<close> the floats are 16 apart, so adding 8 is a tie
  that goes back to the even significand; \<open>13 / 3\<close> rounds up, and 27 times the
  quotient rounds to a value just above 117, whose ceiling is 118.
\<close>

lemma round_float_tie_sample: "round_float 134217736 = Finite 134217728"
  by (simp add: round_float_def exponent_from.simps round_to_even_def Let_def)

lemma fadd_absorbs_half_ulp: "fadd (Finite 134217728) (Finite 8) = Finite 134217728"
  by (simp add: round_float_tie_sample)

lemma fdiv_rounds_sample: "fdiv (Finite 13) (Finite 3) = Finite (9087659 / 2097152)"
  by (simp add: round_float_def exponent_from.simps round_to_even_def Let_def)

lemma fmul_rounds_sample:
  "fmul (Finite 27) (fdiv (Finite 13) (Finite 3)) = Finite (15335425 / 131072)
   \<and> float_to_int (fceil (fmul (Finite 27) (fdiv (Finite 13) (Finite 3)))) = 118"
  by (simp add: fdiv_rounds_sample round_float_def exponent_from.simps round_to_even_def Let_def
      float_to_int_def)

lemma fdiv_by_zero_sample:
  "fdiv (Finite 12) (float_of_int 0) = PInf \<and> fmul (float_of_int 0) PInf = NaN
   \<and> float_to_int (fceil PInf) = - 2147483648"
  by (simp add: float_of_int_def round_float_0 float_to_int_def)


section \<open>The span fast path of the grayscale target\<close>

lemma memcpy_apply:
  "memcpy buf dst src n j = (if dst \<le> j \<and> j < dst + int n then src ! nat (j - dst) else buf j)"
proof (induction n)
  case 0
  then show ?case by auto
next
  case (Suc n)
  then show ?case by (auto simp: nat_diff_distrib)
qed

lemma put_pixel_fields [simp]:
  "m_width (put_pixel t x y a) = m_width t"
  "m_height (put_pixel t x y a) = m_height t"
  "m_stride (put_pixel t x y a) = m_stride t"
  by (simp_all add: put_pixel_def)

lemma pixel_run_Suc:
  "pixel_run t x y alphas (Suc n) = put_pixel (pixel_run t x y alphas n) (x + int n) y (alphas ! n)"
  by (simp add: pixel_run_def)

lemma pixel_run_fields [simp]:
  "m_width (pixel_run t x y alphas n) = m_width t"
  "m_height (pixel_run t x y alphas n) = m_height t"
  "m_stride (pixel_run t x y alphas n) = m_stride t"
  by (induction n) (simp_all add: pixel_run_Suc, simp_all add: pixel_run_def)

lemma pixel_run_buffer:
  "m_buffer (pixel_run t x y alphas n) j =
     (if 0 \<le> y \<and> y < m_height t \<and> max 0 x \<le> j - y * m_stride t
          \<and> j - y * m_stride t < min (m_width t) (x + int n)
      then alphas ! nat (j - y * m_stride t - x) else m_buffer t j)"
proof (induction n)
  case 0
  then show ?case by (auto simp: pixel_run_def)
next
  case (Suc n)
  show ?case
    unfolding pixel_run_Suc 
    apply (simp add: put_pixel_def Suc)
    apply (auto simp: nat_diff_distrib)
    done
qed


lemma put_pixels_run: "put_pixels t x y alphas count = pixel_run t x y alphas (nat count)"
  by (simp add: put_pixels_def pixel_run_def)

lemma put_span_buffer:
  assumes "count = int (length alphas)"
  shows "m_buffer (put_span t x y alphas count) j =
     (if 0 \<le> y \<and> y < m_height t \<and> max 0 x \<le> j - y * m_stride t
          \<and> j - y * m_stride t < min (m_width t) (x + count)
      then alphas ! nat (j - y * m_stride t - x) else m_buffer t j)"
proof (cases "y < 0 \<or> y \<ge> m_height t")
  case True
  then show ?thesis by (auto simp: put_span_def)
next
  case False
  define x0 where "x0 = max 0 x"
  define x1 where "x1 = min (m_width t) (x + count)"
  show ?thesis
  proof (cases "x0 < x1")
    case empty: False
    then show ?thesis using False by (auto simp: put_span_def x0_def x1_def Let_def)
  next
    case True
    have buf: "m_buffer (put_span t x y alphas count) =
        memcpy (m_buffer t) (y * m_stride t + x0) (drop (nat (x0 - x)) alphas) (nat (x1 - x0))"
      using True False by (simp add: put_span_def x0_def x1_def Let_def)
    show ?thesis
    proof (cases "x0 \<le> j - y * m_stride t \<and> j - y * m_stride t < x1")
      case out: False
      then show ?thesis using True False unfolding buf memcpy_apply
        by (auto simp: x0_def[symmetric] x1_def[symmetric])
    next
      case inside: True
      have le: "nat (x0 - x) \<le> length alphas" 
        using True assms unfolding x0_def x1_def by linarith
      have "drop (nat (x0 - x)) alphas ! nat (j - (y * m_stride t + x0))
            = alphas ! (nat (x0 - x) + nat (j - (y * m_stride t + x0)))"
        by (rule nth_drop[OF le])
      also have "nat (x0 - x) + nat (j - (y * m_stride t + x0)) = nat (j - y * m_stride t - x)"
        using inside unfolding x0_def by linarith
      finally show ?thesis using True False inside unfolding buf memcpy_apply
        by (auto simp: x0_def[symmetric] x1_def[symmetric])
    qed
  qed
qed

lemma put_span_fields [simp]:
  "m_width (put_span t x y alphas count) = m_width t"
  "m_height (put_span t x y alphas count) = m_height t"
  "m_stride (put_span t x y alphas count) = m_stride t"
  by (simp_all add: put_span_def Let_def)

text \<open>
  C10. For the overwrite grayscale target, \<open>put_span(x, y, alphas, count)\<close> with an alpha
  array of length \<open>count\<close> leaves the target (buffer and dimensions) in exactly the state
  that calling \<open>put_pixel(x + i, y, alphas[i])\<close> for \<open>i = 0 .. count - 1\<close> does, for
  every position \<open>(x, y)\<close>, in or out of bounds: the span clips to the same pixels and
  writes the same values, zeros included.
\<close>

theorem put_span_refines_put_pixel:
  assumes "count = int (length alphas)"
  shows "put_span t x y alphas count = put_pixels t x y alphas count
         \<and> emit_span t x y alphas count = put_pixels t x y alphas count"
proof -
  have "m_buffer (put_span t x y alphas count) = m_buffer (put_pixels t x y alphas count)"
  proof
    fix j
    show "m_buffer (put_span t x y alphas count) j = m_buffer (put_pixels t x y alphas count) j"
      unfolding put_span_buffer[OF assms] put_pixels_run pixel_run_buffer
      using assms by simp
  qed
  then have "put_span t x y alphas count = put_pixels t x y alphas count"
    by (intro grayscale_target.equality) (simp_all add: put_pixels_run)
  then show ?thesis by (simp add: emit_span_def)
qed

theorem put_span_refines_put_pixel_witness:
  "(3::int) = int (length [10, 0, 30 :: byte]) \<and>
   put_span (make_grayscale_target (\<lambda>_. 7) 2 2 0) (- 1) 1 [10, 0, 30] 3
   = put_pixels (make_grayscale_target (\<lambda>_. 7) 2 2 0) (- 1) 1 [10, 0, 30] 3"
  using put_span_refines_put_pixel
    [of 3 "[10, 0, 30]" "make_grayscale_target (\<lambda>_. 7) 2 2 0" "- 1" 1]
  by simp


section \<open>Porter-Duff blending of the RGBA target\<close>

lemma unat_widen: "unat (widen b) = unat b"
proof -
  have "unat b < 2 ^ 32" using unsigned_less[of b, where 'a=nat] by simp
  then show ?thesis by (simp add: widen_def unsigned_ucast_eq take_bit_nat_eq_self)
qed

lemma unat_byte_le: "unat (b::byte) \<le> 255"
  using unsigned_less[of b, where 'a=nat] by simp

lemma over_rounded_le:
  assumes "s \<le> 255" "d \<le> 255" "a \<le> 255"
  shows "s * a + d * (255 - a) + 127 < 65536" "over_rounded s a d \<le> 255"
proof -
  have "s * a \<le> 255 * a" using assms(1) by simp
  moreover have "d * (255 - a) \<le> 255 * (255 - a)" using assms(2) by simp
  ultimately have "s * a + d * (255 - a) \<le> 255 * a + 255 * (255 - a)" by linarith
  also have "\<dots> = 255 * 255" using assms(3) by simp
  finally have *: "s * a + d * (255 - a) + 127 \<le> 255 * 255 + 127" by simp
  then show "s * a + d * (255 - a) + 127 < 65536" by simp
  from * have "(s * a + d * (255 - a) + 127) div 255 \<le> (255 * 255 + 127) div 255"
    by (rule div_le_mono)
  then show "over_rounded s a d \<le> 255" by (simp add: over_rounded_def)
qed

lemma unat_blend:
  "unat ((widen s * widen a + widen d * (255 - widen a) + 127) div 255)
   = over_rounded (unat s) (unat a) (unat d)"
proof -
  have b: "unat s \<le> 255" "unat d \<le> 255" "unat a \<le> 255" by (rule unat_byte_le)+
  have inv: "unat (255 - widen a) = 255 - unat a"
    using b(3) by (simp add: unat_sub word_le_nat_alt unat_widen)
  have lt: "unat s * unat a + unat d * (255 - unat a) + 127 < 65536"
    by (rule over_rounded_le(1)[OF b])
  have m1: "unat (widen s * widen a) = unat s * unat a"
    using lt by (simp add: unat_word_ariths unat_widen)
  have m2: "unat (widen d * (255 - widen a)) = unat d * (255 - unat a)"
    using lt by (simp add: unat_word_ariths unat_widen inv)
  have s1: "unat (widen s * widen a + widen d * (255 - widen a))
        = unat s * unat a + unat d * (255 - unat a)"
    using lt by (simp add: unat_word_ariths(1) m1 m2)
  have "unat (widen s * widen a + widen d * (255 - widen a) + 127)
        = unat s * unat a + unat d * (255 - unat a) + 127"
    using lt by (simp add: unat_word_ariths(1)[of _ 127] s1)
  then show ?thesis by (simp add: unat_div over_rounded_def)
qed

lemma unat_blend_alpha:
  "unat (widen a + (widen d * (255 - widen a) + 127) div 255)
   = over_rounded 255 (unat a) (unat d)"
proof -
  have b: "unat d \<le> 255" "unat a \<le> 255" by (rule unat_byte_le)+
  have inv: "unat (255 - widen a) = 255 - unat a"
    using b(2) by (simp add: unat_sub word_le_nat_alt unat_widen)
  have lt: "255 * unat a + unat d * (255 - unat a) + 127 < 65536"
    by (rule over_rounded_le(1)) (use b in simp_all)
  have m2: "unat (widen d * (255 - widen a)) = unat d * (255 - unat a)"
    using lt by (simp add: unat_word_ariths unat_widen inv)
  have s1: "unat (widen d * (255 - widen a) + 127) = unat d * (255 - unat a) + 127"
    using lt by (simp add: unat_word_ariths(1)[of _ 127] m2)
  have q: "unat ((widen d * (255 - widen a) + 127) div 255) = (unat d * (255 - unat a) + 127) div 255"
    by (simp add: unat_div s1)
  have "(unat d * (255 - unat a) + 127) div 255 \<le> unat d * (255 - unat a) + 127" by simp
  then have "unat a + (unat d * (255 - unat a) + 127) div 255 < 65536" using lt by linarith
  then have "unat (widen a + (widen d * (255 - widen a) + 127) div 255)
     = unat a + (unat d * (255 - unat a) + 127) div 255"
    by (simp add: unat_word_ariths(1) q unat_widen)
  also have "\<dots> = (255 * unat a + (unat d * (255 - unat a) + 127)) div 255"
    by simp
  finally show ?thesis by (simp add: over_rounded_def add.assoc mult.commute)
qed

lemma small_take_bit:
  fixes a :: u32
  assumes "unat a \<le> 255"
  shows "take_bit 8 a = a"
proof -
  have "a < 2 ^ 8" using assms by (simp add: word_less_nat_alt)
  then have "a AND mask 8 = a" by (rule less_mask_eq)
  then show ?thesis by (simp add: take_bit_eq_mask)
qed

lemma packed_channels:
  fixes a r g b :: u32
  shows "drop_bit 24 (push_bit 24 (take_bit 8 a) OR (push_bit 16 (take_bit 8 r) OR
            (push_bit 8 (take_bit 8 g) OR take_bit 8 b))) AND mask 8 = take_bit 8 a"
    "drop_bit 16 (push_bit 24 (take_bit 8 a) OR (push_bit 16 (take_bit 8 r) OR
            (push_bit 8 (take_bit 8 g) OR take_bit 8 b))) AND mask 8 = take_bit 8 r"
    "drop_bit 8 (push_bit 24 (take_bit 8 a) OR (push_bit 16 (take_bit 8 r) OR
            (push_bit 8 (take_bit 8 g) OR take_bit 8 b))) AND mask 8 = take_bit 8 g"
    "(push_bit 24 (take_bit 8 a) OR (push_bit 16 (take_bit 8 r) OR
            (push_bit 8 (take_bit 8 g) OR take_bit 8 b))) AND mask 8 = take_bit 8 b"
  by (rule bit_word_eqI; auto simp: bit_simps)+

lemma channels_of_packed:
  fixes a r g b :: u32
  assumes "unat a \<le> 255" "unat r \<le> 255" "unat g \<le> 255" "unat b \<le> 255"
  shows "channel_a (push_bit 24 a OR (push_bit 16 r OR (push_bit 8 g OR b))) = unat a"
    "channel_r (push_bit 24 a OR (push_bit 16 r OR (push_bit 8 g OR b))) = unat r"
    "channel_g (push_bit 24 a OR (push_bit 16 r OR (push_bit 8 g OR b))) = unat g"
    "channel_b (push_bit 24 a OR (push_bit 16 r OR (push_bit 8 g OR b))) = unat b"
proof -
  have ff: "(0xFF::u32) = mask 8" by (simp add: mask_eq_exp_minus_1)
  note tb = small_take_bit[OF assms(1)] small_take_bit[OF assms(2)]
    small_take_bit[OF assms(3)] small_take_bit[OF assms(4)]
  show "channel_a (push_bit 24 a OR (push_bit 16 r OR (push_bit 8 g OR b))) = unat a"
    "channel_r (push_bit 24 a OR (push_bit 16 r OR (push_bit 8 g OR b))) = unat r"
    "channel_g (push_bit 24 a OR (push_bit 16 r OR (push_bit 8 g OR b))) = unat g"
    "channel_b (push_bit 24 a OR (push_bit 16 r OR (push_bit 8 g OR b))) = unat b"
    unfolding channel_a_def channel_r_def channel_g_def channel_b_def ff
    using packed_channels[of a r g b] unfolding tb by simp_all
qed


lemma unat_narrow:
  fixes w :: u32
  shows "unat (ucast (w AND 0xFF) :: byte) = unat (w AND 0xFF)"
proof -
  have ff: "(0xFF::u32) = mask 8" by (simp add: mask_eq_exp_minus_1)
  have "unat (w AND mask 8) = take_bit 8 (unat w)"
    by (simp add: take_bit_eq_mask[symmetric] unsigned_take_bit_eq)
  then show ?thesis
    unfolding ff by (simp add: unsigned_ucast_eq)
qed

lemma opaque_pixel:
  "channel_a (push_bit 24 255 OR (push_bit 16 (widen r) OR (push_bit 8 (widen g) OR widen b))) = 255"
  "channel_r (push_bit 24 255 OR (push_bit 16 (widen r) OR (push_bit 8 (widen g) OR widen b))) = unat r"
  "channel_g (push_bit 24 255 OR (push_bit 16 (widen r) OR (push_bit 8 (widen g) OR widen b))) = unat g"
  "channel_b (push_bit 24 255 OR (push_bit 16 (widen r) OR (push_bit 8 (widen g) OR widen b))) = unat b"
  using channels_of_packed[of 255 "widen r" "widen g" "widen b"] unat_byte_le[of r]
    unat_byte_le[of g] unat_byte_le[of b]
  by (simp_all add: unat_widen)

text \<open>
  C9. For the RGBA blend target's \<open>put_pixel\<close> at in-bounds coordinates: with alpha 0 the
  target is unchanged; with alpha 255 the destination pixel becomes the text colour at full
  alpha (no blend arithmetic); for every alpha strictly between 0 and 255 each channel of the
  new pixel is \<open>(src * alpha + dst * (255 - alpha) + 127) div 255\<close> in exact integer
  arithmetic, where \<open>src\<close> is the text colour's channel (255 for the alpha channel) and
  \<open>dst\<close> the channel of the pixel that was there.
\<close>

theorem rgba_put_pixel_blend:
  assumes "0 \<le> x" "x < rgba_width t" "0 \<le> y" "y < rgba_height t"
  shows
    "(alpha = 0 \<longrightarrow> rgba_put_pixel t x y alpha = t) \<and>
     (alpha = 255 \<longrightarrow>
        (let p' = rgba_buffer (rgba_put_pixel t x y alpha) (y * rgba_width t + x)
         in p' = push_bit 24 255 OR (push_bit 16 (widen (m_color_r t)) OR
                   (push_bit 8 (widen (m_color_g t)) OR widen (m_color_b t))) \<and>
            channel_a p' = 255 \<and> channel_r p' = unat (m_color_r t) \<and>
            channel_g p' = unat (m_color_g t) \<and> channel_b p' = unat (m_color_b t))) \<and>
     (0 < alpha \<and> alpha < 255 \<longrightarrow>
        (let p = rgba_buffer t (y * rgba_width t + x);
             p' = rgba_buffer (rgba_put_pixel t x y alpha) (y * rgba_width t + x)
         in channel_a p' = over_rounded 255 (unat alpha) (channel_a p) \<and>
            channel_r p' = over_rounded (unat (m_color_r t)) (unat alpha) (channel_r p) \<and>
            channel_g p' = over_rounded (unat (m_color_g t)) (unat alpha) (channel_g p) \<and>
            channel_b p' = over_rounded (unat (m_color_b t)) (unat alpha) (channel_b p)))"
proof (intro conjI impI)
  assume "alpha = 0"
  then show "rgba_put_pixel t x y alpha = t" by (simp add: rgba_put_pixel_def)
next
  assume "alpha = 255"
  then have "rgba_buffer (rgba_put_pixel t x y alpha) (y * rgba_width t + x)
          = push_bit 24 255 OR (push_bit 16 (widen (m_color_r t)) OR
              (push_bit 8 (widen (m_color_g t)) OR widen (m_color_b t)))"
    using assms by (simp add: rgba_put_pixel_def)
  then show "let p' = rgba_buffer (rgba_put_pixel t x y alpha) (y * rgba_width t + x)
         in p' = push_bit 24 255 OR (push_bit 16 (widen (m_color_r t)) OR
                   (push_bit 8 (widen (m_color_g t)) OR widen (m_color_b t))) \<and>
            channel_a p' = 255 \<and> channel_r p' = unat (m_color_r t) \<and>
            channel_g p' = unat (m_color_g t) \<and> channel_b p' = unat (m_color_b t)"
    unfolding Let_def by (simp only: opaque_pixel simp_thms)
next
  assume a: "0 < alpha \<and> alpha < 255"
  define dst where "dst = rgba_buffer t (y * rgba_width t + x)"
  define out_a where "out_a = widen alpha
      + (widen (ucast (drop_bit 24 dst AND 0xFF)) * (255 - widen alpha) + 127) div 255"
  define out_r where "out_r = (widen (m_color_r t) * widen alpha
      + widen (ucast (drop_bit 16 dst AND 0xFF)) * (255 - widen alpha) + 127) div 255"
  define out_g where "out_g = (widen (m_color_g t) * widen alpha
      + widen (ucast (drop_bit 8 dst AND 0xFF)) * (255 - widen alpha) + 127) div 255"
  define out_b where "out_b = (widen (m_color_b t) * widen alpha
      + widen (ucast (dst AND 0xFF)) * (255 - widen alpha) + 127) div 255"
  have va: "unat out_a = over_rounded 255 (unat alpha) (channel_a dst)"
    unfolding out_a_def unat_blend_alpha by (simp add: unat_narrow channel_a_def)
  have vr: "unat out_r = over_rounded (unat (m_color_r t)) (unat alpha) (channel_r dst)"
    unfolding out_r_def unat_blend by (simp add: unat_narrow channel_r_def)
  have vg: "unat out_g = over_rounded (unat (m_color_g t)) (unat alpha) (channel_g dst)"
    unfolding out_g_def unat_blend by (simp add: unat_narrow channel_g_def)
  have vb: "unat out_b = over_rounded (unat (m_color_b t)) (unat alpha) (channel_b dst)"
    unfolding out_b_def unat_blend by (simp add: unat_narrow channel_b_def)
  have le: "unat out_a \<le> 255" "unat out_r \<le> 255" "unat out_g \<le> 255" "unat out_b \<le> 255"
    unfolding va vr vg vb
    by (rule over_rounded_le(2); simp add: unat_byte_le channel_a_def channel_r_def
        channel_g_def channel_b_def unat_narrow[symmetric])+
  have new: "rgba_buffer (rgba_put_pixel t x y alpha) (y * rgba_width t + x)
      = push_bit 24 out_a OR (push_bit 16 out_r OR (push_bit 8 out_g OR out_b))"
  proof -
    from a have "alpha \<noteq> 255" "0 < alpha" by auto
    then show ?thesis using assms
      by (simp add: rgba_put_pixel_def Let_def dst_def out_a_def out_r_def out_g_def out_b_def)
  qed
  show "let p = rgba_buffer t (y * rgba_width t + x);
             p' = rgba_buffer (rgba_put_pixel t x y alpha) (y * rgba_width t + x)
         in channel_a p' = over_rounded 255 (unat alpha) (channel_a p) \<and>
            channel_r p' = over_rounded (unat (m_color_r t)) (unat alpha) (channel_r p) \<and>
            channel_g p' = over_rounded (unat (m_color_g t)) (unat alpha) (channel_g p) \<and>
            channel_b p' = over_rounded (unat (m_color_b t)) (unat alpha) (channel_b p)"
    unfolding Let_def new dst_def[symmetric] channels_of_packed[OF le] va vr vg vb
    by simp
qed

theorem rgba_put_pixel_blend_witness:
  "(0::int) \<le> 1 \<and> (1::int) < 2 \<and>
   channel_r (rgba_buffer
      (rgba_put_pixel (make_rgba_blend_target (\<lambda>_. 0x80402010) 2 2 0xC86432) 1 1 128) 3)
     = over_rounded 200 128 64"
  using rgba_put_pixel_blend [of 1 "make_rgba_blend_target (\<lambda>_. 0x80402010) 2 2 0xC86432" 1 128]
  by (simp add: make_rgba_blend_target_def channel_r_def Let_def)


section \<open>Missing glyphs\<close>

lemma widen_byte_small: "\<not> (ucast (d::byte) :: char32) > 255"
proof -
  have "unat d < 256" using unsigned_less[of d, where 'a=nat] by simp
  then have "unat (ucast d :: char32) < 256" by (simp add: unsigned_ucast_eq take_bit_nat_eq_self)
  then show ?thesis by (simp add: word_less_nat_alt)
qed

lemma narrow_widen_byte: "(ucast (ucast (d::byte) :: char32) :: byte) = d"
  by (rule bit_word_eqI) (auto simp: bit_simps dest: bit_imp_le_length)

lemma get_glyph_metrics_total: "\<exists>m. get_glyph_metrics source cp sz = Inr m"
proof (cases source)
  case (bitmap_ref font)
  then show ?thesis
    by (auto simp: Let_def get_spacing_def get_glyph_def)
next
  case (vector_ref font)
  then show ?thesis by (auto simp: Let_def split: option.splits)
next
  case (ttf_ref font)
  then show ?thesis by (auto split: option.splits)
qed

text \<open>
  C6 (as amended). \<open>get_glyph_metrics\<close> never signals an error. For a codepoint the font
  has no glyph for: a bitmap or stroke font returns the metrics of its default character when
  the codepoint is at most 255 and the default character is in the font's range, and all-zero
  metrics when the default character is out of range; for every codepoint above 255 a bitmap
  or stroke font returns all-zero metrics without consulting the default character; an
  outline font returns all-zero metrics (its default character \<open>?\<close> is not consulted).
\<close>

theorem get_glyph_metrics_missing:
  assumes "\<not> has_glyph source cp"
  shows "get_glyph_metrics source cp sz =
           (case source of
              ttf_ref font \<Rightarrow> Inr zero_metrics
            | _ \<Rightarrow> if cp > 255 \<or> \<not> has_glyph source (default_char source)
                   then Inr zero_metrics
                   else get_glyph_metrics source (default_char source) sz)
         \<and> (\<forall>cp'. \<exists>m. get_glyph_metrics source cp' sz = Inr m)"
proof (intro conjI allI)
  show "\<exists>m. get_glyph_metrics source cp' sz = Inr m" for cp'
    by (rule get_glyph_metrics_total)
  show "get_glyph_metrics source cp sz =
           (case source of
              ttf_ref font \<Rightarrow> Inr zero_metrics
            | _ \<Rightarrow> if cp > 255 \<or> \<not> has_glyph source (default_char source)
                   then Inr zero_metrics
                   else get_glyph_metrics source (default_char source) sz)"
  proof (cases source)
    case (bitmap_ref font)
    then show ?thesis using assms
      by (auto simp: Let_def widen_byte_small narrow_widen_byte)
  next
    case (vector_ref font)
    then show ?thesis using assms
      by (auto simp: Let_def widen_byte_small narrow_widen_byte vf_get_glyph_def split: option.splits)
  next
    case (ttf_ref font)
    then show ?thesis using assms
      by (auto simp: ttf_has_glyph_def ttf_get_glyph_metrics_def Let_def split: if_splits)
  qed
qed

theorem get_glyph_metrics_missing_witness:
  "\<not> has_glyph (bitmap_ref demo_font) 10 \<and>
   get_glyph_metrics (bitmap_ref demo_font) 10 (Finite 12)
     = get_glyph_metrics (bitmap_ref demo_font) 63 (Finite 12)
   \<and> get_glyph_metrics (bitmap_ref demo_font) 63 (Finite 12) =
      Inr \<lparr>gm_advance_x = Finite 8, gm_bearing_x = Finite 0, gm_bearing_y = Finite 7,
           gm_width = Finite 8, gm_height = Finite 8\<rparr>"
  using get_glyph_metrics_missing[of "bitmap_ref demo_font" 10 "Finite 12"]
  by (simp add: demo_font_def get_spacing_def get_glyph_def bitmap_metrics_of_def
      float_of_int_def float_exact)

text \<open>
  The claim as stated (every missing codepoint, also above 255, gets the default character's
  metrics) fails for U+1234 on the example font, whose default character is valid.
\<close>

theorem get_glyph_metrics_high_codepoint_counterexample:
  "\<not> has_glyph (bitmap_ref demo_font) 0x1234 \<and>
   has_glyph (bitmap_ref demo_font) (default_char (bitmap_ref demo_font)) \<and>
   get_glyph_metrics (bitmap_ref demo_font) 0x1234 (Finite 12) = Inr zero_metrics \<and>
   get_glyph_metrics (bitmap_ref demo_font) 0x1234 (Finite 12)
     \<noteq> get_glyph_metrics (bitmap_ref demo_font) (default_char (bitmap_ref demo_font))
          (Finite 12)"
  by (simp add: demo_font_def get_spacing_def get_glyph_def bitmap_metrics_of_def zero_metrics_def
      float_of_int_def float_exact)

text \<open>
  The stroke variant scales in single precision: with a native height of 3 and size 13 an
  advance of 27 units becomes the float just above 117, and with a native height of 0 the
  scale is an infinity.
\<close>

lemma vector_metrics_rounding_sample:
  assumes "vm_pixel_height (vf_metrics font) = 3" "vg_width glyph = 27"
  shows "gm_advance_x (vector_metrics_of font glyph (Finite 13)) = Finite (15335425 / 131072)"
proof -
  have "gm_advance_x (vector_metrics_of font glyph (Finite 13))
          = fmul (float_of_int 27) (fdiv (Finite 13) (float_of_int 3))"
    using assms by (simp add: vector_metrics_of_def Let_def split: prod.splits)
  moreover have "float_of_int 27 = Finite 27" "float_of_int 3 = Finite 3"
    by (simp_all add: float_of_int_def float_exact)
  ultimately show ?thesis using fmul_rounds_sample by simp
qed

lemma vector_metrics_zero_height_sample:
  assumes "vm_pixel_height (vf_metrics font) = 0" "vm_ascent (vf_metrics font) = 9"
  shows "sm_ascent (get_scaled_metrics (vector_ref font) (Finite 12)) = PInf"
    and "sm_ascent (get_scaled_metrics (vector_ref font) (Finite 0)) = NaN"
  using assms
  by (simp_all add: Let_def float_of_int_def float_exact)


section \<open>Glyph cache: totality, idempotence, page indices\<close>

lemma measure_glyph_total: "\<exists>m. measure_glyph r cp = Inr m"
  unfolding measure_glyph_def by (rule get_glyph_metrics_total)

lemma rasterize_bitmap_glyph_total: "\<exists>calls. rasterize_bitmap_glyph font cp x y = Inr calls"
  by (auto simp: rasterize_bitmap_glyph_def Let_def get_spacing_def get_glyph_def)

lemma rasterize_glyph_total: "\<exists>drawn. rasterize_glyph source cp sz target x y = Inr drawn"
proof (cases source)
  case (bitmap_ref font)
  then show ?thesis
    using rasterize_bitmap_glyph_total[of font cp x y] by (auto simp: rasterize_glyph_def)
next
  case (vector_ref font)
  then show ?thesis by (simp add: rasterize_glyph_def)
next
  case (ttf_ref font)
  then show ?thesis by (simp add: rasterize_glyph_def)
qed

lemma emplace_fresh:
  "m_cache c cp = None \<Longrightarrow> emplace c cp glyph = (glyph, c\<lparr>m_cache := (m_cache c)(cp \<mapsto> glyph)\<rparr>)"
  by (simp add: emplace_def)

lemma wrap_row_fields [simp]:
  "m_cache (wrap_row c pw) = m_cache c" "m_atlases (wrap_row c pw) = m_atlases c"
  "m_config (wrap_row c pw) = m_config c" "m_rasterizer (wrap_row c pw) = m_rasterizer c"
  by (simp_all add: wrap_row_def)

lemma new_page_fields [simp]:
  "m_cache (new_page c ph) = m_cache c"
  "m_config (new_page c ph) = m_config c" "m_rasterizer (new_page c ph) = m_rasterizer c"
  by (simp_all add: new_page_def add_atlas_def)

lemma cache_glyph_fresh:
  assumes "m_cache c cp = None" "measure_glyph (m_rasterizer c) cp = Inr metrics"
  shows "\<exists>c'. cache_glyph c cp = Inr (packed_glyph c metrics, c')
          \<and> m_cache c' = (m_cache c)(cp \<mapsto> packed_glyph c metrics)
          \<and> m_rasterizer c' = m_rasterizer c \<and> m_config c' = m_config c
          \<and> length (m_atlases c') = 
              (if rect_w (rect (packed_glyph c metrics)) = 0 then length (m_atlases c)
               else length (m_atlases (packed_state c metrics)))"
proof (cases "clamp (float_to_int (fceil (gm_width metrics))) 0 (atlas_size (m_config c)) \<le> 0
              \<or> clamp (float_to_int (fceil (gm_height metrics))) 0 (atlas_size (m_config c)) \<le> 0")
  case True
  then show ?thesis using assms
    by (simp add: cache_glyph_def Let_def emplace_fresh packed_glyph_def)
next
  case False
  obtain drawn where d: "rasterize_glyph (m_source (m_rasterizer c)) cp (m_size (m_rasterizer c))
      (make_grayscale_target (\<lambda>_. 0) (clamp (float_to_int (fceil (gm_width metrics))) 0 (atlas_size (m_config c)))
         (clamp (float_to_int (fceil (gm_height metrics))) 0 (atlas_size (m_config c))) 0) 0 (float_to_int (fceil (gm_bearing_y metrics)))
      = Inr drawn"
    using rasterize_glyph_total by blast
  show ?thesis using assms False d
    by (simp add: cache_glyph_def Let_def emplace_def packed_glyph_def packed_state_def)
qed


lemma get_total: "\<exists>g c'. get c cp = Inr (g, c') \<and> m_cache c' cp = Some g"
proof (cases "m_cache c cp")
  case None
  obtain metrics where m: "measure_glyph (m_rasterizer c) cp = Inr metrics"
    using measure_glyph_total by blast
  from cache_glyph_fresh[OF None m] show ?thesis using None by (auto simp: get_def)
next
  case (Some g)
  then show ?thesis by (simp add: get_def)
qed

text \<open>
  C1. For every cache and codepoint, \<open>get\<close> returns a glyph and a successor state, and a
  second \<open>get\<close> of the same codepoint in that state returns the same glyph and leaves the
  state as it is: codepoint map, atlas pages and packing cursor are those after the first
  call, so nothing is rasterized again. The glyph returned is the entry stored under the
  codepoint (the same object both times).
\<close>

theorem get_twice:
  "\<exists>g c'. get c cp = Inr (g, c') \<and> get c' cp = Inr (g, c') \<and> m_cache c' cp = Some g"
proof -
  obtain g c' where 1: "get c cp = Inr (g, c')" and 2: "m_cache c' cp = Some g"
    using get_total by blast
  from 2 have "get c' cp = Inr (g, c')" by (simp add: get_def)
  with 1 2 show ?thesis by blast
qed

lemma packed_state_pages: "length (m_atlases c) \<le> length (m_atlases (packed_state c metrics))"
  by (simp add: packed_state_def Let_def new_page_def add_atlas_def)

lemma packed_glyph_advance [simp]: "advance_x (packed_glyph c metrics) = gm_advance_x metrics"
  by (simp add: packed_glyph_def Let_def)

lemma packed_glyph_index:
  assumes "m_atlases c \<noteq> []"
  shows "0 \<le> atlas_index (packed_glyph c metrics)"
    "atlas_index (packed_glyph c metrics) <
       int (if rect_w (rect (packed_glyph c metrics)) = 0 then length (m_atlases c)
            else length (m_atlases (packed_state c metrics)))"
proof -
  have "0 < length (m_atlases c)" using assms by simp
  then have "0 < length (m_atlases (packed_state c metrics))"
    using packed_state_pages[of c metrics] by linarith
  then show "0 \<le> atlas_index (packed_glyph c metrics)"
    "atlas_index (packed_glyph c metrics) <
       int (if rect_w (rect (packed_glyph c metrics)) = 0 then length (m_atlases c)
            else length (m_atlases (packed_state c metrics)))"
    using assms by (auto simp: packed_glyph_def Let_def)
qed

lemma get_preserves_wf:
  assumes "cache_wf c" "get c cp = Inr (g, c')"
  shows "cache_wf c' \<and> m_rasterizer c' = m_rasterizer c \<and> m_config c' = m_config c"
proof (cases "m_cache c cp")
  case (Some e)
  with assms show ?thesis by (simp add: get_def)
next
  case None
  obtain metrics where m: "measure_glyph (m_rasterizer c) cp = Inr metrics"
    using measure_glyph_total by blast
  from cache_glyph_fresh[OF None m] assms(2) None
  have g: "g = packed_glyph c metrics"
    and mc: "m_cache c' = (m_cache c)(cp \<mapsto> packed_glyph c metrics)"
    and r: "m_rasterizer c' = m_rasterizer c" and cf: "m_config c' = m_config c"
    and len: "length (m_atlases c') =
            (if rect_w (rect (packed_glyph c metrics)) = 0 then length (m_atlases c)
             else length (m_atlases (packed_state c metrics)))"
    by (auto simp: get_def)
  from assms(1) have ne: "m_atlases c \<noteq> []" by (simp add: cache_wf_def)
  have grow: "length (m_atlases c) \<le> length (m_atlases c')"
    using len packed_state_pages[of c metrics] by (simp split: if_splits)
  have "cache_wf c'"
    unfolding cache_wf_def
  proof (intro conjI allI impI)
    show "m_atlases c' \<noteq> []" using ne grow by auto
  next
    fix cp' g' assume a: "m_cache c' cp' = Some g'"
    show "0 \<le> atlas_index g'"
      using a mc assms(1) packed_glyph_index(1)[OF ne, of metrics]
      by (auto simp: cache_wf_def split: if_splits)
  next
    fix cp' g' assume a: "m_cache c' cp' = Some g'"
    show "atlas_index g' < atlas_count c'"
    proof (cases "cp' = cp")
      case True
      with a mc have "g' = packed_glyph c metrics" by simp
      then show ?thesis
        using packed_glyph_index(2)[OF ne, of metrics] len by (simp add: atlas_count_def)
    next
      case False
      with a mc have "m_cache c cp' = Some g'" by simp
      with assms(1) have "atlas_index g' < int (length (m_atlases c))"
        by (simp add: cache_wf_def atlas_count_def)
      with grow show ?thesis by (simp add: atlas_count_def)
    qed
  next
    fix cp' g' assume a: "m_cache c' cp' = Some g'"
    show "\<exists>m. measure_glyph (m_rasterizer c') cp' = Inr m \<and> advance_x g' = gm_advance_x m"
      using a mc assms(1) m r
      by (auto simp: cache_wf_def split: if_splits)
  qed
  with r cf show ?thesis by simp
qed

subsection \<open>The invariant holds for every constructed cache\<close>

lemma measure_loop_total: "\<exists>res. measure_loop r cps st = Inr res"
proof (induction cps arbitrary: st)
  case Nil
  then show ?case by simp
next
  case (Cons cp cps)
  obtain pen_x prev where st: "st = (pen_x, prev)" by (cases st)
  obtain m where m: "get_glyph_metrics (m_source r) cp (m_size r) = Inr m"
    using get_glyph_metrics_total by blast
  show ?case using Cons.IH by (simp add: st m Let_def)
qed

lemma measure_text_total: "\<exists>e. measure_text r text = Inr e"
proof -
  obtain res where "measure_loop r (utf8_view text) (Finite 0, 0) = Inr res"
    using measure_loop_total by blast
  then show ?thesis by (cases res) (simp add: measure_text_def Let_def)
qed

lemma cache_glyph_total: 
  assumes "m_cache c cp = None"
  shows "\<exists>g c'. cache_glyph c cp = Inr (g, c')"
proof -
  obtain metrics where m: "measure_glyph (m_rasterizer c) cp = Inr metrics"
    using measure_glyph_total by blast
  from cache_glyph_fresh[OF assms m] show ?thesis by blast
qed

lemma cache_codepoints_total: "\<exists>c'. cache_codepoints c cps = Inr c'"
proof (induction cps arbitrary: c)
  case Nil
  then show ?case by simp
next
  case (Cons cp cps)
  show ?case
  proof (cases "is_cached c cp")
    case True
    then show ?thesis using Cons.IH[of c] by simp
  next
    case False
    then obtain g c1 where "cache_glyph c cp = Inr (g, c1)"
      using cache_glyph_total[of c cp] by (auto simp: is_cached_def)
    then show ?thesis using False Cons.IH[of c1] by simp
  qed
qed

lemma cache_codepoints_wf:
  assumes "cache_wf c" "cache_codepoints c cps = Inr c'"
  shows "cache_wf c'"
  using assms
proof (induction cps arbitrary: c)
  case Nil
  then show ?case by simp
next
  case (Cons cp cps)
  show ?case
  proof (cases "is_cached c cp")
    case True
    then show ?thesis using Cons by simp
  next
    case False
    then have none: "m_cache c cp = None" by (simp add: is_cached_def)
    then obtain g c1 where g: "cache_glyph c cp = Inr (g, c1)"
      using cache_glyph_total[of c cp] by auto
    then have "get c cp = Inr (g, c1)" using none by (simp add: get_def)
    then have "cache_wf c1" using get_preserves_wf[OF Cons.prems(1)] by blast
    then show ?thesis using Cons.IH[of c1] Cons.prems(2) False g by simp
  qed
qed

lemma make_glyph_cache_wf:
  assumes "make_glyph_cache source sz config = Inr c"
  shows "cache_wf c"
proof -
  define c0 where "c0 = add_atlas
                \<lparr>m_rasterizer = set_size (make_text_rasterizer source) sz,
                 m_config = config, m_atlases = [], m_cache = Map.empty,
                 m_pack_x = 0, m_pack_y = 0, m_row_height = 0\<rparr>"
  have wf0: "cache_wf c0" by (simp add: c0_def cache_wf_def add_atlas_def)
  show ?thesis
  proof (cases "pre_cache_ascii config")
    case True
    then have "cache_codepoints c0 (map of_nat [32..<127]) = Inr c"
      using assms by (simp add: make_glyph_cache_def c0_def Let_def)
    then show ?thesis by (rule cache_codepoints_wf[OF wf0])
  next
    case False
    then have "c = c0" using assms by (simp add: make_glyph_cache_def c0_def Let_def)
    then show ?thesis using wf0 by simp
  qed
qed



section \<open>Atlas access\<close>

text \<open>
  C8. \<open>atlas(index)\<close> signals the out-of-range failure if and only if
  \<open>index < 0\<close> or \<open>index \<ge> atlas_count()\<close>, and returns the page at \<open>index\<close>
  otherwise; it is a \<open>const\<close> function of the cache, so no state changes on either branch.
  The cache's other operations report no failure: \<open>get\<close>, \<open>cache_string\<close>,
  \<open>measure\<close> and every returning \<open>cache_range\<close> yield a result in every state.
\<close>

theorem atlas_out_of_range:
  "((\<exists>e. atlas c index = Inl e) \<longleftrightarrow> (index < 0 \<or> index \<ge> atlas_count c))
   \<and> (0 \<le> index \<and> index < atlas_count c \<longrightarrow> atlas c index = Inr (m_atlases c ! nat index))
   \<and> (\<forall>cp. \<exists>g c'. get c cp = Inr (g, c'))
   \<and> (\<forall>text. \<exists>c'. cache_string c text = Inr c')
   \<and> (\<forall>first_cp last_cp. last_cp \<noteq> - 1 \<longrightarrow>
          (\<exists>c'. cache_range c first_cp last_cp = Some (Inr c')))
   \<and> (\<forall>text. \<exists>extents. cache_measure c text = Inr extents)"
proof (intro conjI)
  show "(\<exists>e. atlas c index = Inl e) \<longleftrightarrow> (index < 0 \<or> index \<ge> atlas_count c)"
    by (auto simp: atlas_def atlas_count_def)
  show "0 \<le> index \<and> index < atlas_count c \<longrightarrow> atlas c index = Inr (m_atlases c ! nat index)"
    by (auto simp: atlas_def atlas_count_def)
  show "\<forall>cp. \<exists>g c'. get c cp = Inr (g, c')"
    using get_total[of c] by blast
  show "\<forall>text. \<exists>c'. cache_string c text = Inr c'"
    by (simp add: cache_string_def cache_codepoints_total)
  show "\<forall>first_cp last_cp. last_cp \<noteq> - 1 \<longrightarrow>
          (\<exists>c'. cache_range c first_cp last_cp = Some (Inr c'))"
    by (simp add: cache_range_def cache_codepoints_total)
  show "\<forall>text. \<exists>extents. cache_measure c text = Inr extents"
    by (simp add: cache_measure_def measure_text_total)
qed

lemma demo_cache_constructed:
  "make_glyph_cache (bitmap_ref demo_font) (Finite 12) demo_config = Inr demo_cache"
  by (simp add: make_glyph_cache_def demo_config_def demo_cache_def add_atlas_def
      set_size_def make_text_rasterizer_def)

theorem atlas_out_of_range_witness:
  "atlas demo_cache 1 = Inl out_of_range \<and> atlas demo_cache (- 1) = Inl out_of_range \<and>
   atlas demo_cache 0 = Inr (make_memory_atlas 8 8)"
  using atlas_out_of_range[of demo_cache 1] atlas_out_of_range[of demo_cache "- 1"]
    atlas_out_of_range[of demo_cache 0]
  by (simp add: demo_cache_def atlas_def atlas_count_def)


section \<open>Atlas bounds\<close>

lemma write_row_dims [simp]:
  "ma_width (write_row x y w pixels stride row a) = ma_width a"
  "ma_height (write_row x y w pixels stride row a) = ma_height a"
  by (simp_all add: write_row_def Let_def)

lemma write_rows_dims:
  "ma_width (fold (write_row x y w pixels stride) rows a) = ma_width a \<and>
   ma_height (fold (write_row x y w pixels stride) rows a) = ma_height a"
  by (induction rows arbitrary: a) simp_all

lemma write_alpha_dims [simp]:
  "ma_width (write_alpha a x y w h pixels stride) = ma_width a"
  "ma_height (write_alpha a x y w h pixels stride) = ma_height a"
  by (simp_all add: write_alpha_def write_rows_dims)

text \<open>
  Where the packer does keep a glyph inside the page: whenever the clamped glyph plus the
  padding fits the page size in both directions, the recorded rect ends inside
  \<open>atlas_size\<close>, whether or not the row wraps or a page is opened.
\<close>

lemma packed_glyph_fits:
  assumes "0 \<le> padding (m_config c)" "0 \<le> atlas_size (m_config c)"
    and "clamp (float_to_int (fceil (gm_width metrics))) 0 (atlas_size (m_config c)) + padding (m_config c)
           \<le> atlas_size (m_config c)"
    and "clamp (float_to_int (fceil (gm_height metrics))) 0 (atlas_size (m_config c)) + padding (m_config c)
           \<le> atlas_size (m_config c)"
  shows "rect_x (rect (packed_glyph c metrics)) + rect_w (rect (packed_glyph c metrics))
           \<le> atlas_size (m_config c)
       \<and> rect_y (rect (packed_glyph c metrics)) + rect_h (rect (packed_glyph c metrics))
           \<le> atlas_size (m_config c)"
  using assms
  by (auto simp: packed_glyph_def packed_state_def Let_def wrap_row_def new_page_def add_atlas_def)

text \<open>
  C2 at a failing input. The claim: every cached glyph with a non-zero rect lies inside its
  page. In the example cache (8 by 8 pages, padding 1, 8 by 8 glyphs) the first \<open>get\<close> of
  \<open>A\<close> clamps the glyph to the page size, finds that it fits neither the row nor the
  page, opens page 1 and places the glyph at (1, 1): its rect ends at 9, beyond the page's 8.
\<close>

theorem get_places_glyph_across_page_boundary:
  "\<exists>g c'. get demo_cache 0x41 = Inr (g, c')
     \<and> rect g = \<lparr>rect_x = 1, rect_y = 1, rect_w = 8, rect_h = 8\<rparr>
     \<and> atlas_index g = 1
     \<and> atlas c' (atlas_index g) = Inr (m_atlases c' ! 1)
     \<and> ma_width (m_atlases c' ! 1) = 8 \<and> ma_height (m_atlases c' ! 1) = 8
     \<and> rect_x (rect g) + rect_w (rect g) > ma_width (m_atlases c' ! 1)
     \<and> rect_y (rect g) + rect_h (rect g) > ma_height (m_atlases c' ! 1)"
  by (simp add: get_def cache_glyph_def demo_cache_def demo_config_def demo_font_def
      measure_glyph_def get_spacing_def get_glyph_def bitmap_metrics_of_def Let_def clamp_def
      wrap_row_def new_page_def add_atlas_def rasterize_glyph_def rasterize_bitmap_glyph_def
      emplace_def atlas_def make_memory_atlas_def float_of_int_def float_exact float_to_int_def)


section \<open>Drawing: blit calls and pen travel\<close>

lemma draw_step_ok:
  assumes "cache_wf (ds_cache st)"
  shows "\<exists>st' new. draw_step y st cp = (None, st')
      \<and> cache_wf (ds_cache st')
      \<and> m_rasterizer (ds_cache st') = m_rasterizer (ds_cache st)
      \<and> ds_prev_codepoint st' = cp
      \<and> ds_pen_x st' =
          fadd (if ds_prev_codepoint st \<noteq> 0
                then fadd (ds_pen_x st)
                       (rasterizer_kerning (m_rasterizer (ds_cache st)) (ds_prev_codepoint st) cp)
                else ds_pen_x st)
            (advance_of (m_rasterizer (ds_cache st)) cp)
      \<and> ds_blits st' = ds_blits st @ new \<and> list_all visible new"
proof -
  obtain g c' where g: "get (ds_cache st) cp = Inr (g, c')" and stored: "m_cache c' cp = Some g"
    using get_total by blast
  from get_preserves_wf[OF assms g]
  have wf: "cache_wf c'" and r: "m_rasterizer c' = m_rasterizer (ds_cache st)" by simp_all
  from wf stored obtain m where idx: "0 \<le> atlas_index g" "atlas_index g < atlas_count c'"
    and m: "measure_glyph (m_rasterizer c') cp = Inr m" and adv: "advance_x g = gm_advance_x m"
    unfolding cache_wf_def by blast
  have a: "advance_x g = advance_of (m_rasterizer (ds_cache st)) cp"
    using m adv r by (simp add: advance_of_def)
  have page: "atlas c' (atlas_index g) = Inr (m_atlases c' ! nat (atlas_index g))"
    using idx by (auto simp: atlas_def atlas_count_def)
  show ?thesis
  proof (cases "rect_w (rect g) > 0 \<and> rect_h (rect g) > 0")
    case True
    then show ?thesis using g wf r a page
      by (simp add: draw_step_def Let_def visible_def)
  next
    case False
    then show ?thesis using g wf r a
      by (auto simp: draw_step_def Let_def)
  qed
qed

lemma draw_loop_ok:
  assumes "cache_wf (ds_cache st)"
  shows "\<exists>st' new. draw_loop y cps st = (None, st')
      \<and> cache_wf (ds_cache st')
      \<and> ds_pen_x st' = pen_after (m_rasterizer (ds_cache st)) cps (ds_pen_x st, ds_prev_codepoint st)
      \<and> ds_blits st' = ds_blits st @ new \<and> list_all visible new"
  using assms
proof (induction cps arbitrary: st)
  case Nil
  then show ?case by simp
next
  case (Cons cp cps)
  from draw_step_ok[OF Cons.prems, of y cp] obtain st1 new1 where
    s: "draw_step y st cp = (None, st1)" and wf1: "cache_wf (ds_cache st1)"
    and r1: "m_rasterizer (ds_cache st1) = m_rasterizer (ds_cache st)"
    and p1: "ds_prev_codepoint st1 = cp"
    and x1: "ds_pen_x st1 =
          fadd (if ds_prev_codepoint st \<noteq> 0
                then fadd (ds_pen_x st)
                       (rasterizer_kerning (m_rasterizer (ds_cache st)) (ds_prev_codepoint st) cp)
                else ds_pen_x st)
            (advance_of (m_rasterizer (ds_cache st)) cp)"
    and b1: "ds_blits st1 = ds_blits st @ new1" "list_all visible new1"
    by blast
  from Cons.IH[OF wf1] obtain st2 new2 where
    l: "draw_loop y cps st1 = (None, st2)" and wf2: "cache_wf (ds_cache st2)"
    and x2: "ds_pen_x st2 = pen_after (m_rasterizer (ds_cache st1)) cps (ds_pen_x st1, ds_prev_codepoint st1)"
    and b2: "ds_blits st2 = ds_blits st1 @ new2" "list_all visible new2"
    by blast
  have "draw_loop y (cp # cps) st = (None, st2)" using s l by simp
  moreover have "ds_pen_x st2 = pen_after (m_rasterizer (ds_cache st)) (cp # cps) (ds_pen_x st, ds_prev_codepoint st)"
    using x2 x1 p1 r1 by simp
  moreover have "ds_blits st2 = ds_blits st @ (new1 @ new2)" "list_all visible (new1 @ new2)"
    using b1 b2 by simp_all
  ultimately show ?case using wf2 by blast
qed









section \<open>Word wrap\<close>

lemma demo_advance: "cp \<le> 255 \<Longrightarrow> measure_glyph demo_rasterizer cp = 
   Inr \<lparr>gm_advance_x = Finite 8, gm_bearing_x = Finite 0, gm_bearing_y = Finite 7,
        gm_width = Finite 8, gm_height = Finite 8\<rparr>"
  by (auto simp: measure_glyph_def demo_rasterizer_def demo_font_def Let_def
        get_spacing_def get_glyph_def bitmap_metrics_of_def not_less float_of_int_def float_exact)

lemma decode_ascii_samples: "utf8_decode_one (0x61 # r) = \<lparr>codepoint = 0x61, bytes_consumed = 1\<rparr>"
  "utf8_decode_one (0x20 # r) = \<lparr>codepoint = 0x20, bytes_consumed = 1\<rparr>"
  "utf8_decode_one (0x62 # r) = \<lparr>codepoint = 0x62, bytes_consumed = 1\<rparr>"
  "utf8_decode_one (0x0A # r) = \<lparr>codepoint = 0x0A, bytes_consumed = 1\<rparr>"
  by (simp_all add: utf8_decode_one_def promote_def Let_def)

lemma wrap_lines_sample:
  "wrap_lines demo_rasterizer [0x61, 0x20, 0x62, 0x0A] (Finite 24)
     = Inr [[0x61, 0x20, 0x62, 0x0A]]"
  by (simp add: wrap_lines_def wrap_loop.simps decode_ascii_samples demo_advance wrap_glyph_def
      wrap_newline_def flush_line_def slice_def Let_def float_exact)

lemma measure_text_sample: "measure_text demo_rasterizer [0x61, 0x20, 0x62, 0x0A] = 
   Inr \<lparr>te_width = Finite 32, te_height = Finite 8, te_ascent = Finite 7,
        te_descent = Finite 1\<rparr>"
  by (simp add: measure_text_def utf8_view.simps decode_ascii_samples Let_def
      demo_advance[unfolded measure_glyph_def] get_metrics_def demo_rasterizer_def demo_font_def
      get_spacing_def get_glyph_def bitmap_metrics_of_def float_of_int_def float_exact)

text \<open>
  C5 at a failing input. The claim: every line \<open>wrap_lines\<close> produces measures at most
  \<open>W\<close> unless it is a single over-wide word. With the example font (every advance 8) and
  \<open>W = 24\<close>, the text \<open>a b\<close> followed by a newline gives the single line \<open>a b\<close>
  \<^emph>\<open>with the newline byte\<close>: the flush on a newline happens after \<open>current\<close> has moved
  past it. The line holds two words and measures 32.
\<close>

theorem wrap_lines_keeps_newline_in_line:
  "wrap_lines demo_rasterizer [0x61, 0x20, 0x62, 0x0A] (Finite 24)
     = Inr [[0x61, 0x20, 0x62, 0x0A]]
   \<and> measure_text demo_rasterizer [0x61, 0x20, 0x62, 0x0A]
       = Inr \<lparr>te_width = Finite 32, te_height = Finite 8, te_ascent = Finite 7,
              te_descent = Finite 1\<rparr>
   \<and> flt (Finite 24) (Finite 32)"
  using wrap_lines_sample measure_text_sample by simp


section \<open>The renderer reports no failure\<close>

text \<open>
  \<open>wrap_lines\<close> returns in every state, and over a cache in a constructible state
  \<open>draw_baseline\<close>, \<open>draw_aligned\<close> and \<open>draw_wrapped\<close> complete without an error
  and leave the cache in a constructible state.
\<close>

lemma wrap_loop_total: "\<exists>st'. wrap_loop r t max_width st = Inr st'"
proof (induction r t max_width st rule: wrap_loop.induct)
  case (1 r t max_width st)
  show ?case
  proof (cases "ws_current st < length t")
    case False
    then show ?thesis by (subst wrap_loop.simps) simp
  next
    case True
    define d where "d = utf8_decode_one (drop (ws_current st) t)"
    show ?thesis
    proof (cases "bytes_consumed d = 0")
      case z: True
      then show ?thesis using True by (subst wrap_loop.simps) (simp add: d_def Let_def)
    next
      case nz: False
      show ?thesis
      proof (cases "codepoint d = 0x0A")
        case nl: True
        from "1.IH"(1)[OF _ d_def refl refl nz nl] True
        show ?thesis using nz nl by (subst wrap_loop.simps) (simp add: d_def Let_def)
      next
        case g: False
        obtain metrics where m: "measure_glyph r (codepoint d) = Inr metrics"
          using measure_glyph_total by blast
        from "1.IH"(2)[OF _ d_def refl refl nz g m] True
        show ?thesis using nz g m by (subst wrap_loop.simps) (simp add: d_def Let_def)
      qed
    qed
  qed
qed

lemma wrap_lines_total: "\<exists>lines. wrap_lines r t max_width = Inr lines"
proof -
  obtain st where "wrap_loop r t max_width
               \<lparr>ws_lines = [], ws_line_start = 0, ws_word_start = 0, ws_current = 0,
                ws_line_width = Finite 0, ws_word_width = Finite 0\<rparr> = Inr st"
    using wrap_loop_total by blast
  then show ?thesis by (simp add: wrap_lines_def)
qed

lemma draw_baseline_ok:
  assumes "cache_wf cache"
  shows "dr_error (draw_baseline cache t x y blits) = None
       \<and> cache_wf (dr_cache (draw_baseline cache t x y blits))"
proof (cases "t = []")
  case True
  then show ?thesis using assms by (simp add: draw_baseline_def)
next
  case False
  define st0 where "st0 = \<lparr>ds_cache = cache, ds_pen_x = x, ds_prev_codepoint = 0, ds_blits = blits\<rparr>"
  have "cache_wf (ds_cache st0)" using assms by (simp add: st0_def)
  from draw_loop_ok[OF this, of y "utf8_view t"] obtain st' where
    "draw_loop y (utf8_view t) st0 = (None, st')" "cache_wf (ds_cache st')"
    by (auto simp: st0_def)
  then show ?thesis using False by (simp add: draw_baseline_def st0_def[symmetric])
qed

lemma draw_aligned_ok:
  assumes "cache_wf cache"
  shows "dr_error (draw_aligned cache t x y width align blits) = None
       \<and> cache_wf (dr_cache (draw_aligned cache t x y width align blits))"
proof (cases "t = []")
  case True
  then show ?thesis using assms by (simp add: draw_aligned_def)
next
  case False
  obtain extents where e: "cache_measure cache t = Inr extents"
    using measure_text_total by (auto simp: cache_measure_def)
  show ?thesis using False e draw_baseline_ok[OF assms]
    by (simp add: draw_aligned_def draw_def Let_def)
qed

lemma draw_lines_ok:
  assumes "cache_wf cache"
  shows "\<exists>n c' b'. draw_lines box align line_h lines cache blits current_y lines_drawn
           = (None, n, c', b')"
  using assms
proof (induction lines arbitrary: cache blits current_y lines_drawn)
  case Nil
  then show ?case by simp
next
  case (Cons line rest)
  from draw_aligned_ok[OF Cons.prems]
  have ok: "dr_error (draw_aligned cache line (box_x box) current_y (box_w box) align blits) = None"
    and wf: "cache_wf (dr_cache (draw_aligned cache line (box_x box) current_y (box_w box) align blits))"
    by simp_all
  show ?case using ok Cons.IH[OF wf] by (simp add: Let_def)
qed

lemma draw_wrapped_ok:
  assumes "cache_wf cache"
  shows "\<exists>n c' b'. draw_wrapped cache t box align blits = (None, n, c', b')"
proof (cases "t = []")
  case True
  then show ?thesis by (simp add: draw_wrapped_def)
next
  case False
  obtain lines where l: "wrap_lines (m_rasterizer cache) t (box_w box) = Inr lines"
    using wrap_lines_total by blast
  show ?thesis using False l draw_lines_ok[OF assms] by (simp add: draw_wrapped_def)
qed
end
